theory Spec2Isabelle
  imports Main "HOL-Library.Word"
begin

unbundle bit_operations_syntax

section \<open>Go values used by package scan\<close>

text \<open>
  A Go string is an immutable sequence of bytes; nothing makes it well-formed UTF-8.
  A rune is an int32; every rune that occurs here lies between \<open>-2\<close> and \<open>0x1FFFFF\<close>,
  so runes are integers. \<open>Pos\<close> and \<open>ItemType\<close> are Go ints; positions stay
  within the length of the input up to a few widths, so no machine arithmetic wraps.
\<close>

type_synonym byte = "8 word"
type_synonym gostring = "byte list"
type_synonym rune = int

text \<open>
  Slicing \<open>s[lo:hi]\<close> panics unless \<open>0 \<le> lo \<le> hi \<le> len(s)\<close>.
\<close>

datatype panic = SliceBoundsOutOfRange

definition slice :: "gostring \<Rightarrow> int \<Rightarrow> int \<Rightarrow> panic + gostring" where
  "slice s lo hi =
     (if 0 \<le> lo \<and> lo \<le> hi \<and> hi \<le> int (length s)
      then Inr (take (nat (hi - lo)) (drop (nat lo) s))
      else Inl SliceBoundsOutOfRange)"

subsection \<open>Package unicode/utf8\<close>

text \<open>
  The decoder and encoder of the Go standard library, which \<open>Next\<close> and
  \<open>strings.IndexRune\<close> call. \<open>utf8_first\<close> is the table \<open>first\<close> (information
  about the first byte of an encoding: \<open>0xF0\<close> for ASCII, \<open>0xF1\<close> for an invalid
  first byte, otherwise the size in the low three bits and the index of the accept range
  of the second byte in the high four), \<open>acceptRanges\<close> the table of that name.
\<close>

definition RuneError :: rune where "RuneError = 0xFFFD"
definition RuneSelf :: rune where "RuneSelf = 0x80"
definition MaxRune :: rune where "MaxRune = 0x10FFFF"
definition surrogateMin :: rune where "surrogateMin = 0xD800"
definition surrogateMax :: rune where "surrogateMax = 0xDFFF"

definition utf8_first :: "byte \<Rightarrow> byte" where
  "utf8_first b =
     (if b < 0x80 then 0xF0
      else if b < 0xC2 then 0xF1
      else if b < 0xE0 then 0x02
      else if b = 0xE0 then 0x13
      else if b < 0xED then 0x03
      else if b = 0xED then 0x23
      else if b < 0xF0 then 0x03
      else if b = 0xF0 then 0x34
      else if b < 0xF4 then 0x04
      else if b = 0xF4 then 0x44
      else 0xF1)"

definition acceptRanges :: "byte \<Rightarrow> byte \<times> byte" where
  "acceptRanges i =
     (if i = 1 then (0xA0, 0xBF)
      else if i = 2 then (0x80, 0x9F)
      else if i = 3 then (0x90, 0xBF)
      else if i = 4 then (0x80, 0x8F)
      else (0x80, 0xBF))"

text \<open>
  \<open>DecodeRuneInString\<close> returns the rune at the front of the string and its width in
  bytes: \<open>(RuneError, 0)\<close> for the empty string, \<open>(RuneError, 1)\<close> for an encoding
  that is invalid. In the first branch the source selects between the byte and
  \<open>RuneError\<close> with a mask made of bit 0 of the table entry.
\<close>

definition DecodeRuneInString :: "gostring \<Rightarrow> rune \<times> int" where
  "DecodeRuneInString s =
     (let n = length s in
      if n < 1 then (RuneError, 0)
      else
        let s0 = s ! 0; x = utf8_first s0 in
        if 0xF0 \<le> x then ((if bit x 0 then RuneError else uint s0), 1)
        else
          let sz = unat (x AND 7); accept = acceptRanges (drop_bit 4 x) in
          if n < sz then (RuneError, 1)
          else
            let s1 = s ! 1 in
            if s1 < fst accept \<or> snd accept < s1 then (RuneError, 1)
            else if sz \<le> 2
              then (push_bit 6 (uint (s0 AND 0x1F)) OR uint (s1 AND 0x3F), 2)
            else
              let s2 = s ! 2 in
              if s2 < 0x80 \<or> 0xBF < s2 then (RuneError, 1)
              else if sz \<le> 3
                then (push_bit 12 (uint (s0 AND 0x0F)) OR push_bit 6 (uint (s1 AND 0x3F))
                        OR uint (s2 AND 0x3F), 3)
              else
                let s3 = s ! 3 in
                if s3 < 0x80 \<or> 0xBF < s3 then (RuneError, 1)
                else (push_bit 18 (uint (s0 AND 0x07)) OR push_bit 12 (uint (s1 AND 0x3F))
                        OR push_bit 6 (uint (s2 AND 0x3F)) OR uint (s3 AND 0x3F), 4))"

definition ValidRune :: "rune \<Rightarrow> bool" where
  "ValidRune r =
     (if 0 \<le> r \<and> r < surrogateMin then True
      else if surrogateMax < r \<and> r \<le> MaxRune then True
      else False)"

text \<open>
  \<open>EncodeRune\<close> is \<open>utf8.AppendRune\<close> on the empty slice, which is also the
  conversion \<open>string(r)\<close>: a rune outside the valid range (as a uint32, so every
  negative one) is encoded as \<open>RuneError\<close>.
\<close>

definition byte_of :: "int \<Rightarrow> byte" where
  "byte_of r = word_of_int r"

definition EncodeRune :: "rune \<Rightarrow> gostring" where
  "EncodeRune r =
     (if 0 \<le> r \<and> r \<le> 0x7F then [byte_of r]
      else if 0 \<le> r \<and> r \<le> 0x7FF
        then [0xC0 OR byte_of (drop_bit 6 r), 0x80 OR (byte_of r AND 0x3F)]
      else
        let r' = (if r < 0 \<or> MaxRune < r \<or> (surrogateMin \<le> r \<and> r \<le> surrogateMax)
                  then RuneError else r) in
        if r' \<le> 0xFFFF
        then [0xE0 OR byte_of (drop_bit 12 r'), 0x80 OR (byte_of (drop_bit 6 r') AND 0x3F),
              0x80 OR (byte_of r' AND 0x3F)]
        else [0xF0 OR byte_of (drop_bit 18 r'), 0x80 OR (byte_of (drop_bit 12 r') AND 0x3F),
              0x80 OR (byte_of (drop_bit 6 r') AND 0x3F), 0x80 OR (byte_of r' AND 0x3F)])"

lemma utf8_first_cases:
  "utf8_first b \<in> {0xF0, 0xF1, 0x02, 0x13, 0x03, 0x23, 0x34, 0x04, 0x44}"
  by (simp add: utf8_first_def)

lemma DecodeRuneInString_width:
  "s \<noteq> [] \<Longrightarrow> 1 \<le> snd (DecodeRuneInString s) \<and> snd (DecodeRuneInString s) \<le> 4"
  using utf8_first_cases [of "s ! 0"]
  apply (simp only: insert_iff empty_iff)
  apply (elim disjE)
          apply (simp_all add: DecodeRuneInString_def Let_def acceptRanges_def)
  done

lemma DecodeRuneInString_within:
  "snd (DecodeRuneInString s) \<le> int (length s)"
  using utf8_first_cases [of "s ! 0"]
  apply (simp only: insert_iff empty_iff)
  apply (elim disjE)
          apply (simp_all add: DecodeRuneInString_def Let_def acceptRanges_def)
     apply (cases "length s"; simp)+
  done

subsection \<open>Package strings\<close>

text \<open>
  \<open>IndexByte\<close> and \<open>Index\<close> return the index of the first instance of a byte or of
  a substring, \<open>-1\<close> if there is none. \<open>IndexRuneError\<close> is the loop
  \<open>for i, r := range s\<close> inside \<open>IndexRune\<close>, which looks for the first
  rune that decodes to \<open>RuneError\<close>. In \<open>IndexRune\<close>, as the standard library has
  it today, a rune that is not a valid code point (every negative one, so \<open>EOF\<close>) is
  never found. \<open>CountByte\<close> is \<open>strings.Count\<close> for a separator of one byte, as in
  \<open>strings.Count(s, "\n")\<close>.
\<close>

fun IndexByte :: "gostring \<Rightarrow> byte \<Rightarrow> int" where
  "IndexByte [] c = -1"
| "IndexByte (b # bs) c =
     (if b = c then 0 else let i = IndexByte bs c in if i < 0 then -1 else i + 1)"

fun Index :: "gostring \<Rightarrow> gostring \<Rightarrow> int" where
  "Index [] sub = (if sub = [] then 0 else -1)"
| "Index (b # bs) sub =
     (if take (length sub) (b # bs) = sub then 0
      else let i = Index bs sub in if i < 0 then -1 else i + 1)"

function IndexRuneError :: "gostring \<Rightarrow> int \<Rightarrow> int" where
  "IndexRuneError s i =
     (if s = [] then -1
      else case DecodeRuneInString s of
             (r, w) \<Rightarrow> if r = RuneError then i else IndexRuneError (drop (nat w) s) (i + w))"
  by pat_completeness auto
termination
proof (relation "measure (\<lambda>(s, i). length s)", goal_cases)
  case 1
  show ?case by simp
next
  case (2 s i r w)
  then have "1 \<le> w" using DecodeRuneInString_width [of s] by (metis snd_conv)
  with 2 show ?case by (cases s) auto
qed

declare IndexRuneError.simps [simp del]

definition IndexRune :: "gostring \<Rightarrow> rune \<Rightarrow> int" where
  "IndexRune s r =
     (if 0 \<le> r \<and> r < RuneSelf then IndexByte s (byte_of r)
      else if r = RuneError then IndexRuneError s 0
      else if \<not> ValidRune r then -1
      else Index s (EncodeRune r))"

primrec CountByte :: "gostring \<Rightarrow> byte \<Rightarrow> int" where
  "CountByte [] c = 0"
| "CountByte (b # bs) c = (if b = c then 1 else 0) + CountByte bs c"

section \<open>The scanner\<close>

text \<open>
  \<open>ERROR\<close> and \<open>EOF\<close> are untyped constants of the package: \<open>EOF\<close> is both
  the rune that \<open>Next\<close> returns at the end of the input and an item type.
\<close>

definition ERROR :: int where "ERROR = -2"
definition EOF :: int where "EOF = -1"

record Item =
  Typ :: int
  Pos :: int
  Val :: gostring

text \<open>
  What a run hands out or discards, in order: an item sent by \<open>Emit\<close>, the pending
  span \<open>start\<close> to \<open>pos\<close> dropped by \<open>Ignore\<close>, an item sent by \<open>Errorf\<close>.
\<close>

datatype event = Emitted Item | Ignored int int | Failed Item

text \<open>
  The struct \<open>Scanner\<close>. The channel \<open>items\<close> is the sequence of items sent and not
  yet received. The field \<open>state\<close> has a function type that mentions the scanner
  itself; it is kept beside the record, as an argument of \<open>run\<close>. Two fields are not
  in the source and are read by no operation: \<open>backups\<close> counts the calls of
  \<open>Backup\<close> since the last call of \<open>Next\<close>, and \<open>trace\<close> records the events
  of the run.
\<close>

record Scanner =
  name :: gostring
  input :: gostring
  pos :: int
  start :: int
  width :: int
  lastPos :: int
  items :: "Item list"
  parenDepth :: int
  backups :: nat
  trace :: "event list"

definition Next :: "Scanner \<Rightarrow> panic + (rune \<times> Scanner)" where
  "Next s =
     (if int (length (input s)) \<le> pos s then Inr (EOF, s\<lparr>width := 0, backups := 0\<rparr>)
      else case slice (input s) (pos s) (int (length (input s))) of
             Inl e \<Rightarrow> Inl e
           | Inr rest \<Rightarrow>
               (case DecodeRuneInString rest of
                  (r, w) \<Rightarrow> Inr (r, s\<lparr>width := w, pos := pos s + w, backups := 0\<rparr>)))"

definition Backup :: "Scanner \<Rightarrow> Scanner" where
  "Backup s = s\<lparr>pos := pos s - width s, backups := Suc (backups s)\<rparr>"

definition Peek :: "Scanner \<Rightarrow> panic + (rune \<times> Scanner)" where
  "Peek s = (case Next s of Inl e \<Rightarrow> Inl e | Inr (r, s1) \<Rightarrow> Inr (r, Backup s1))"

definition Emit :: "int \<Rightarrow> Scanner \<Rightarrow> panic + Scanner" where
  "Emit t s =
     (case slice (input s) (start s) (pos s) of
        Inl e \<Rightarrow> Inl e
      | Inr v \<Rightarrow>
          let it = \<lparr>Typ = t, Pos = start s, Val = v\<rparr>
          in Inr (s\<lparr>items := items s @ [it], start := pos s,
                    trace := trace s @ [Emitted it]\<rparr>))"

definition Ignore :: "Scanner \<Rightarrow> Scanner" where
  "Ignore s = s\<lparr>start := pos s, trace := trace s @ [Ignored (start s) (pos s)]\<rparr>"

definition Text :: "Scanner \<Rightarrow> panic + gostring" where
  "Text s = slice (input s) (start s) (pos s)"

definition Accept :: "gostring \<Rightarrow> Scanner \<Rightarrow> panic + (bool \<times> Scanner)" where
  "Accept valid s =
     (case Next s of
        Inl e \<Rightarrow> Inl e
      | Inr (r, s1) \<Rightarrow>
          if 0 \<le> IndexRune valid r then Inr (True, s1) else Inr (False, Backup s1))"

lemma slice_to_end:
  "0 \<le> p \<Longrightarrow> p \<le> int (length s) \<Longrightarrow> slice s p (int (length s)) = Inr (drop (nat p) s)"
  by (simp add: slice_def)

lemma IndexRune_EOF: "IndexRune valid EOF = -1"
  by (simp add: IndexRune_def EOF_def RuneSelf_def RuneError_def ValidRune_def
      surrogateMax_def MaxRune_def)

lemma Next_at_end:
  "int (length (input s)) \<le> pos s \<Longrightarrow> Next s = Inr (EOF, s\<lparr>width := 0, backups := 0\<rparr>)"
  by (simp add: Next_def)

lemma Next_negative: "pos s < 0 \<Longrightarrow> Next s = Inl SliceBoundsOutOfRange"
  by (simp add: Next_def slice_def)

lemma Next_inside:
  assumes "0 \<le> pos s" and "pos s < int (length (input s))"
  shows "\<exists>r w. DecodeRuneInString (drop (nat (pos s)) (input s)) = (r, w)
           \<and> Next s = Inr (r, s\<lparr>width := w, pos := pos s + w, backups := 0\<rparr>)
           \<and> 1 \<le> w \<and> w \<le> 4 \<and> pos s + w \<le> int (length (input s))"
proof -
  let ?rest = "drop (nat (pos s)) (input s)"
  obtain r w where d: "DecodeRuneInString ?rest = (r, w)"
    by (cases "DecodeRuneInString ?rest")
  from assms have ne: "?rest \<noteq> []" by simp
  have w: "1 \<le> w" "w \<le> 4" using DecodeRuneInString_width [OF ne] d by simp_all
  have "w \<le> int (length ?rest)" using DecodeRuneInString_within [of ?rest] d by simp
  with assms have b: "pos s + w \<le> int (length (input s))" by simp
  have "Next s = Inr (r, s\<lparr>width := w, pos := pos s + w, backups := 0\<rparr>)"
    using assms d by (simp add: Next_def slice_to_end)
  with d w b show ?thesis by blast
qed

lemma Next_cases:
  assumes "Next s = Inr (r, s1)"
  shows "(int (length (input s)) \<le> pos s \<and> r = EOF \<and> s1 = s\<lparr>width := 0, backups := 0\<rparr>)
       \<or> (0 \<le> pos s \<and> pos s < int (length (input s)) \<and> input s1 = input s
            \<and> pos s < pos s1 \<and> pos s1 \<le> int (length (input s)))"
proof (cases "int (length (input s)) \<le> pos s")
  case True
  with assms show ?thesis by (simp add: Next_at_end)
next
  case False
  show ?thesis
  proof (cases "pos s < 0")
    case True
    with assms show ?thesis by (simp add: Next_negative)
  next
    case nn: False
    from Next_inside [of s] False nn assms show ?thesis by auto
  qed
qed

text \<open>
  \<open>AcceptRun\<close>: the loop \<open>for strings.IndexRune(valid, s.Next()) >= 0 { }\<close>, then
  \<open>Backup\<close>. The loop ends because a rune that is in \<open>valid\<close> is not \<open>EOF\<close>, so
  \<open>Next\<close> has moved the position towards the end of the input.
\<close>

function AcceptRun_loop :: "gostring \<Rightarrow> Scanner \<Rightarrow> panic + Scanner" where
  "AcceptRun_loop valid s =
     (case Next s of
        Inl e \<Rightarrow> Inl e
      | Inr (r, s1) \<Rightarrow> if 0 \<le> IndexRune valid r then AcceptRun_loop valid s1 else Inr s1)"
  by pat_completeness auto
termination
proof (relation "measure (\<lambda>(valid, s). nat (int (length (input s)) - pos s))", goal_cases)
  case 1
  show ?case by simp
next
  case (2 valid s x r s1)
  then have "Next s = Inr (r, s1)" and "r \<noteq> EOF"
    using IndexRune_EOF [of valid] by auto
  with Next_cases [of s r s1] show ?case by auto
qed

declare AcceptRun_loop.simps [simp del]

definition AcceptRun :: "gostring \<Rightarrow> Scanner \<Rightarrow> panic + Scanner" where
  "AcceptRun valid s =
     (case AcceptRun_loop valid s of Inl e \<Rightarrow> Inl e | Inr s1 \<Rightarrow> Inr (Backup s1))"

definition LineNumber :: "Scanner \<Rightarrow> panic + int" where
  "LineNumber s =
     (case slice (input s) 0 (lastPos s) of
        Inl e \<Rightarrow> Inl e
      | Inr before \<Rightarrow> Inr (1 + CountByte before 0x0A))"

text \<open>
  A state function takes the scanner and returns the next state function, or nil
  (\<open>None\<close>). \<open>Errorf\<close> formats with \<open>fmt.Sprintf\<close>, which is a parameter here.
\<close>

datatype StateFn = StateFn "Scanner \<Rightarrow> panic + (StateFn option \<times> Scanner)"

definition Errorf ::
  "(gostring \<Rightarrow> 'a list \<Rightarrow> gostring) \<Rightarrow> gostring \<Rightarrow> 'a list \<Rightarrow> Scanner
     \<Rightarrow> StateFn option \<times> Scanner" where
  "Errorf Sprintf format args s =
     (let it = \<lparr>Typ = ERROR, Pos = start s, Val = Sprintf format args\<rparr>
      in (None, s\<lparr>items := items s @ [it], trace := trace s @ [Failed it]\<rparr>))"

text \<open>
  \<open>NextItem\<close> receives from the channel; with nothing sent it blocks (\<open>None\<close>).
\<close>

definition NextItem :: "Scanner \<Rightarrow> (Item \<times> Scanner) option" where
  "NextItem s =
     (case items s of
        [] \<Rightarrow> None
      | it # rest \<Rightarrow> Some (it, s\<lparr>items := rest, lastPos := Pos it\<rparr>))"

text \<open>
  \<open>New\<close> leaves every field but \<open>name\<close>, \<open>input\<close>, \<open>state\<close> and \<open>items\<close>
  at its zero value; the goroutine it starts is \<open>run\<close> on the start state.
\<close>

definition New :: "gostring \<Rightarrow> gostring \<Rightarrow> Scanner" where
  "New nm inp =
     \<lparr>name = nm, input = inp, pos = 0, start = 0, width = 0, lastPos = 0, items = [],
      parenDepth = 0, backups = 0, trace = []\<rparr>"


subsection \<open>Runs of the scanner\<close>

text \<open>
  Whatever a state function computes, what it does to the scanner is a sequence of calls
  of the exported operations. \<open>exec\<close> performs such a sequence and stops at the first
  panic.
\<close>

datatype 'a op =
  ONext | OPeek | OBackup | OAccept gostring | OAcceptRun gostring
  | OEmit int | OIgnore | OErrorf gostring "'a list"

fun step :: "(gostring \<Rightarrow> 'a list \<Rightarrow> gostring) \<Rightarrow> 'a op \<Rightarrow> Scanner \<Rightarrow> panic + Scanner" where
  "step F ONext s = (case Next s of Inl e \<Rightarrow> Inl e | Inr (r, s1) \<Rightarrow> Inr s1)"
| "step F OPeek s = (case Peek s of Inl e \<Rightarrow> Inl e | Inr (r, s1) \<Rightarrow> Inr s1)"
| "step F OBackup s = Inr (Backup s)"
| "step F (OAccept valid) s = (case Accept valid s of Inl e \<Rightarrow> Inl e | Inr (b, s1) \<Rightarrow> Inr s1)"
| "step F (OAcceptRun valid) s = AcceptRun valid s"
| "step F (OEmit t) s = Emit t s"
| "step F OIgnore s = Inr (Ignore s)"
| "step F (OErrorf format args) s = Inr (snd (Errorf F format args s))"

fun exec :: "(gostring \<Rightarrow> 'a list \<Rightarrow> gostring) \<Rightarrow> 'a op list \<Rightarrow> Scanner \<Rightarrow> panic + Scanner" where
  "exec F [] s = Inr s"
| "exec F (x # xs) s = (case step F x s of Inl e \<Rightarrow> Inl e | Inr s1 \<Rightarrow> exec F xs s1)"

subsection \<open>Notions used to state the properties\<close>

text \<open>
  \<open>unit_at inp p\<close> is what is to be read at byte offset \<open>p\<close> of \<open>inp\<close>: the
  end-of-input sentinel with width 0 at or past the end, otherwise the rune decoded there
  with its width. \<open>Peeks n\<close> is \<open>n\<close> consecutive calls of \<open>Peek\<close>, with the
  runes they return.
\<close>

definition unit_at :: "gostring \<Rightarrow> int \<Rightarrow> rune \<times> int" where
  "unit_at inp p =
     (if int (length inp) \<le> p then (EOF, 0) else DecodeRuneInString (drop (nat p) inp))"

fun Peeks :: "nat \<Rightarrow> Scanner \<Rightarrow> panic + (rune list \<times> Scanner)" where
  "Peeks 0 s = Inr ([], s)"
| "Peeks (Suc n) s =
     (case Peek s of
        Inl e \<Rightarrow> Inl e
      | Inr (r, s1) \<Rightarrow>
          (case Peeks n s1 of Inl e \<Rightarrow> Inl e | Inr (rs, s2) \<Rightarrow> Inr (r # rs, s2)))"

text \<open>
  \<open>member_run valid inp p q\<close>: from byte offset \<open>p\<close> one reaches \<open>q\<close> by
  stepping over whole units of \<open>inp\<close>, each of them in the set \<open>valid\<close>.
\<close>

inductive member_run :: "gostring \<Rightarrow> gostring \<Rightarrow> int \<Rightarrow> int \<Rightarrow> bool"
  for valid :: gostring and inp :: gostring where
  stop: "member_run valid inp p p"
| more: "p < int (length inp) \<Longrightarrow> 0 \<le> IndexRune valid (fst (unit_at inp p)) \<Longrightarrow>
         member_run valid inp (p + snd (unit_at inp p)) q \<Longrightarrow> member_run valid inp p q"

text \<open>
  \<open>boundary inp p\<close>: \<open>p\<close> is a boundary between units of \<open>inp\<close>, that is offset 0
  or the end of a unit that starts at a boundary. These are the offsets at which Go's
  \<open>for i := range inp\<close> finds a rune, and the length of \<open>inp\<close>; an ill-formed byte
  is a unit of width 1.
\<close>

inductive boundary :: "gostring \<Rightarrow> int \<Rightarrow> bool" for inp :: gostring where
  first: "boundary inp 0"
| after: "boundary inp p \<Longrightarrow> p < int (length inp) \<Longrightarrow> boundary inp (p + snd (unit_at inp p))"

text \<open>
  The documented precondition of \<open>Backup\<close> ("can only be called once per call of
  next") on a sequence of calls: when the grammar calls \<open>Backup\<close>, no call of
  \<open>Backup\<close> has happened since the last call of \<open>Next\<close>, the calls made inside
  \<open>Peek\<close>, \<open>Accept\<close> and \<open>AcceptRun\<close> included.
\<close>

fun contract :: "(gostring \<Rightarrow> 'a list \<Rightarrow> gostring) \<Rightarrow> 'a op list \<Rightarrow> Scanner \<Rightarrow> bool" where
  "contract F [] s = True"
| "contract F (x # xs) s =
     ((x = OBackup \<longrightarrow> backups s = 0)
      \<and> (case step F x s of Inl e \<Rightarrow> True | Inr s1 \<Rightarrow> contract F xs s1))"

definition cursor_inv :: "Scanner \<Rightarrow> bool" where
  "cursor_inv s =
     (boundary (input s) (pos s) \<and> boundary (input s) (start s)
      \<and> (backups s = 0 \<longrightarrow> boundary (input s) (pos s - width s)))"

text \<open>
  \<open>encode_all cs\<close> is the UTF-8 text of the code points \<open>cs\<close>.
\<close>

definition encode_all :: "rune list \<Rightarrow> gostring" where
  "encode_all cs = concat (map EncodeRune cs)"

text \<open>
  What the events of a run cover. An item sent by \<open>Emit\<close> covers the bytes from its
  position for the length of its value, \<open>Ignore\<close> the pending span from \<open>start\<close> to
  \<open>pos\<close>; an item sent by \<open>Errorf\<close> carries a message and covers nothing.
  \<open>handed inp e\<close> is the text of the event, \<open>sent e\<close> the item it put on the
  channel. \<open>chained a sp b\<close>: the spans \<open>sp\<close> lead from \<open>a\<close> to \<open>b\<close>, each
  starting where the one before ends and none running backwards. An event is
  \<open>nonsentinel\<close> unless it is an item of type \<open>EOF\<close> or \<open>ERROR\<close>.
\<close>

fun span_of :: "event \<Rightarrow> (int \<times> int) list" where
  "span_of (Emitted it) = [(Pos it, Pos it + int (length (Val it)))]"
| "span_of (Ignored a b) = [(a, b)]"
| "span_of (Failed it) = []"

definition spans :: "event list \<Rightarrow> (int \<times> int) list" where
  "spans tr = concat (map span_of tr)"

fun handed :: "gostring \<Rightarrow> event \<Rightarrow> gostring" where
  "handed inp (Emitted it) = Val it"
| "handed inp (Ignored a b) = take (nat (b - a)) (drop (nat a) inp)"
| "handed inp (Failed it) = []"

fun sent :: "event \<Rightarrow> Item list" where
  "sent (Emitted it) = [it]"
| "sent (Ignored a b) = []"
| "sent (Failed it) = [it]"

fun chained :: "int \<Rightarrow> (int \<times> int) list \<Rightarrow> int \<Rightarrow> bool" where
  "chained a [] b = (a = b)"
| "chained a ((lo, hi) # sp) b = (lo = a \<and> lo \<le> hi \<and> chained hi sp b)"

fun nonsentinel :: "event \<Rightarrow> bool" where
  "nonsentinel (Emitted it) = (Typ it \<noteq> EOF \<and> Typ it \<noteq> ERROR)"
| "nonsentinel (Ignored a b) = True"
| "nonsentinel (Failed it) = False"

text \<open>
  \<open>orderly\<close>: in the sequence of calls, \<open>Ignore\<close> is never called while the position
  is behind the emission boundary (where \<open>Emit\<close> panics).
\<close>

fun orderly :: "(gostring \<Rightarrow> 'a list \<Rightarrow> gostring) \<Rightarrow> 'a op list \<Rightarrow> Scanner \<Rightarrow> bool" where
  "orderly F [] s = True"
| "orderly F (x # xs) s =
     ((x = OIgnore \<longrightarrow> start s \<le> pos s)
      \<and> (case step F x s of Inl e \<Rightarrow> True | Inr s1 \<Rightarrow> orderly F xs s1))"

definition span_inv :: "Scanner \<Rightarrow> bool" where
  "span_inv s =
     (0 \<le> start s \<and> start s \<le> int (length (input s)) \<and> pos s \<le> int (length (input s))
      \<and> 0 \<le> width s
      \<and> chained 0 (spans (trace s)) (start s)
      \<and> concat (map (handed (input s)) (trace s)) = take (nat (start s)) (input s)
      \<and> concat (map sent (trace s)) = items s)"

section \<open>Properties\<close>

subsection \<open>Errorf leaves the cursor alone\<close>

text \<open>
  C10. \<open>Errorf\<close> leaves the current position, the emission boundary \<open>start\<close> and
  the last-consumed width as they were, so the pending text is the same after the call as
  before; \<open>Emit\<close>, when it succeeds, moves \<open>start\<close> to the current position.
\<close>

theorem Errorf_frame:
  "pos (snd (Errorf F format args s)) = pos s
   \<and> start (snd (Errorf F format args s)) = start s
   \<and> width (snd (Errorf F format args s)) = width s
   \<and> Text (snd (Errorf F format args s)) = Text s
   \<and> (\<forall>t s1. Emit t s = Inr s1 \<longrightarrow> start s1 = pos s)"
  by (auto simp: Errorf_def Text_def Let_def Emit_def split: sum.splits)

theorem Errorf_frame_witness:
  "Emit 0 ((New [] [0x61])\<lparr>pos := 1\<rparr>) =
     Inr \<lparr>name = [], input = [0x61], pos = 1, start = 1, width = 0, lastPos = 0,
          items = [\<lparr>Typ = 0, Pos = 0, Val = [0x61]\<rparr>], parenDepth = 0, backups = 0,
          trace = [Emitted \<lparr>Typ = 0, Pos = 0, Val = [0x61]\<rparr>]\<rparr>
   \<and> start (snd (Errorf (\<lambda>f (a :: unit list). f) [0x65] [] ((New [] [0x61])\<lparr>pos := 1\<rparr>))) = 0
   \<and> Text (snd (Errorf (\<lambda>f (a :: unit list). f) [0x65] [] ((New [] [0x61])\<lparr>pos := 1\<rparr>)))
       = Inr [0x61]"
proof -
  let ?s = "(New [] [0x61])\<lparr>pos := 1\<rparr>"
  have e: "Emit 0 ?s =
     Inr \<lparr>name = [], input = [0x61], pos = 1, start = 1, width = 0, lastPos = 0,
          items = [\<lparr>Typ = 0, Pos = 0, Val = [0x61]\<rparr>], parenDepth = 0, backups = 0,
          trace = [Emitted \<lparr>Typ = 0, Pos = 0, Val = [0x61]\<rparr>]\<rparr>"
    by (simp add: Emit_def New_def slice_def Let_def)
  have t: "Text ?s = Inr [0x61]" by (simp add: Text_def New_def slice_def)
  have z: "start ?s = 0" by (simp add: New_def)
  from Errorf_frame [of "\<lambda>f (a :: unit list). f" "[0x65]" "[]" ?s] e t z show ?thesis
    by simp
qed

subsection \<open>Peek\<close>

lemma unit_at_width:
  "0 \<le> p \<Longrightarrow> 0 \<le> snd (unit_at inp p) \<and> snd (unit_at inp p) \<le> 4
     \<and> (p < int (length inp) \<longrightarrow> 1 \<le> snd (unit_at inp p))
     \<and> (0 < snd (unit_at inp p) \<longrightarrow> p + snd (unit_at inp p) \<le> int (length inp))"
proof (cases "int (length inp) \<le> p")
  case True
  then show ?thesis by (simp add: unit_at_def)
next
  case False
  assume "0 \<le> p"
  with False have ne: "drop (nat p) inp \<noteq> []" by simp
  from DecodeRuneInString_width [OF ne] DecodeRuneInString_within [of "drop (nat p) inp"]
    False \<open>0 \<le> p\<close>
  show ?thesis by (simp add: unit_at_def)
qed

lemma Next_unit_at:
  "0 \<le> pos s \<Longrightarrow>
   Next s = Inr (fst (unit_at (input s) (pos s)),
                 s\<lparr>width := snd (unit_at (input s) (pos s)),
                   pos := pos s + snd (unit_at (input s) (pos s)), backups := 0\<rparr>)"
  using Next_inside [of s]
  by (cases "int (length (input s)) \<le> pos s") (auto simp: unit_at_def Next_at_end)

lemma Peek_unit_at:
  "0 \<le> pos s \<Longrightarrow>
   Peek s = Inr (fst (unit_at (input s) (pos s)),
                 s\<lparr>width := snd (unit_at (input s) (pos s)), backups := 1\<rparr>)"
  by (simp add: Peek_def Next_unit_at Backup_def)

lemma Peeks_eq:
  "0 \<le> pos s \<Longrightarrow>
   Peeks n s = Inr (replicate n (fst (unit_at (input s) (pos s))),
                    if n = 0 then s
                    else s\<lparr>width := snd (unit_at (input s) (pos s)), backups := 1\<rparr>)"
proof (induction n arbitrary: s)
  case 0
  show ?case by simp
next
  case (Suc n)
  let ?s1 = "s\<lparr>width := snd (unit_at (input s) (pos s)), backups := 1\<rparr>"
  have p: "0 \<le> pos ?s1" using Suc.prems by simp
  show ?case using Suc.prems Suc.IH [OF p]
    by (simp add: Peek_unit_at)
qed

text \<open>
  C6, as the code has it. \<open>Peek\<close> at a byte offset of the input returns the unit there
  and leaves the position and the emission boundary where they were, but the
  last-consumed width is afterwards the width of the unit peeked: 0 at the end of the
  input, 1 to 4 inside it, whatever it was before the call.
\<close>

theorem Peek_width:
  "0 \<le> pos s \<Longrightarrow>
   \<exists>r s1. Peek s = Inr (r, s1) \<and> r = fst (unit_at (input s) (pos s))
     \<and> width s1 = snd (unit_at (input s) (pos s))
     \<and> pos s1 = pos s \<and> start s1 = start s \<and> input s1 = input s
     \<and> (int (length (input s)) \<le> pos s \<longrightarrow> width s1 = 0)
     \<and> (pos s < int (length (input s)) \<longrightarrow> 1 \<le> width s1 \<and> width s1 \<le> 4)"
  using unit_at_width [of "pos s" "input s"]
  by (auto simp: Peek_unit_at unit_at_def)

theorem Peek_width_witness:
  "(0::int) \<le> pos ((New [] [0xC3, 0xA9])\<lparr>width := 1\<rparr>)
   \<and> (\<exists>r s1. Peek ((New [] [0xC3, 0xA9])\<lparr>width := 1\<rparr>) = Inr (r, s1) \<and> width s1 = 2
         \<and> pos s1 = 0)
   \<and> (\<exists>r s1. Peek ((New [] [])\<lparr>width := 1\<rparr>) = Inr (r, s1) \<and> width s1 = 0 \<and> pos s1 = 0)"
proof -
  let ?s = "(New [] [0xC3, 0xA9])\<lparr>width := 1\<rparr>"
  let ?e = "(New [] [])\<lparr>width := 1\<rparr>"
  have p: "0 \<le> pos ?s" by (simp add: New_def)
  have u: "unit_at (input ?s) (pos ?s) = (0xE9, 2)"
    by (simp add: New_def unit_at_def DecodeRuneInString_def utf8_first_def Let_def
        acceptRanges_def)
  have z: "pos ?s = 0" by (simp add: New_def)
  from Peek_width [OF p] p u z have
    1: "\<exists>r s1. Peek ?s = Inr (r, s1) \<and> width s1 = 2 \<and> pos s1 = 0" by auto
  have q: "0 \<le> pos ?e" and l: "int (length (input ?e)) \<le> pos ?e" and y: "pos ?e = 0"
    by (simp_all add: New_def)
  from Peek_width [OF q] l y have
    2: "\<exists>r s1. Peek ?e = Inr (r, s1) \<and> width s1 = 0 \<and> pos s1 = 0" by auto
  from p 1 2 show ?thesis by blast
qed

text \<open>
  C6, as the claim states it, fails on the input \<open>"a"\<close>: the width is 0 before the
  first \<open>Peek\<close> and 1 after it.
\<close>

theorem Peek_width_counterexample:
  "width (New [] [0x61]) = 0
   \<and> Peek (New [] [0x61]) =
       Inr (0x61, \<lparr>name = [], input = [0x61], pos = 0, start = 0, width = 1, lastPos = 0,
                   items = [], parenDepth = 0, backups = 1, trace = []\<rparr>)"
  by (simp add: New_def Peek_def Next_def Backup_def slice_def DecodeRuneInString_def
      utf8_first_def Let_def)

text \<open>
  C7. At every byte offset of every input, any number of consecutive calls of \<open>Peek\<close>
  return one and the same unit, and the position after them is the position before.
\<close>

theorem Peek_idempotent:
  "0 \<le> pos s \<Longrightarrow>
   \<exists>r. \<forall>n. \<exists>s1. Peeks n s = Inr (replicate n r, s1) \<and> pos s1 = pos s \<and> input s1 = input s"
  using Peeks_eq [of s] by auto

theorem Peek_idempotent_witness:
  "(0::int) \<le> pos (New [] [0xC3, 0xA9])
   \<and> (\<exists>s1. Peeks 3 (New [] [0xC3, 0xA9]) = Inr ([0xE9, 0xE9, 0xE9], s1) \<and> pos s1 = 0)"
proof -
  let ?s = "New [] [0xC3, 0xA9]"
  have p: "0 \<le> pos ?s" by (simp add: New_def)
  have z: "pos ?s = 0" by (simp add: New_def)
  from Peek_idempotent [OF p] obtain r where
    r: "\<And>n. \<exists>s1. Peeks n ?s = Inr (replicate n r, s1) \<and> pos s1 = pos ?s \<and> input s1 = input ?s"
    by blast
  have "Peek ?s = Inr (0xE9, ?s\<lparr>width := 2, backups := 1\<rparr>)"
    by (simp add: New_def Peek_def Next_def Backup_def slice_def DecodeRuneInString_def
        utf8_first_def Let_def acceptRanges_def)
  then have "\<exists>s1. Peeks 1 ?s = Inr ([0xE9], s1)" by simp
  with r [of 1] have e: "r = 0xE9" by auto
  from r [of 3] obtain s1 where "Peeks 3 ?s = Inr (replicate 3 r, s1)" and "pos s1 = pos ?s"
    by blast
  with e z have "Peeks 3 ?s = Inr ([0xE9, 0xE9, 0xE9], s1) \<and> pos s1 = 0"
    by (simp add: numeral_3_eq_3)
  with p show ?thesis by blast
qed

subsection \<open>Line numbers\<close>

lemma CountByte_filter: "CountByte bs c = int (length (filter (\<lambda>b. b = c) bs))"
  by (induction bs) auto

text \<open>
  C5, as the code has it. After \<open>NextItem\<close> has returned an item whose position is a
  byte offset of the input, \<open>LineNumber\<close> is one more than the number of newline bytes
  strictly before that position (the first line is line 1), and it does not depend on the
  live cursor: the position, the emission boundary and the width do not enter it.
\<close>

theorem LineNumber_handoff:
  "NextItem s = Some (it, s1) \<Longrightarrow> 0 \<le> Pos it \<Longrightarrow> Pos it \<le> int (length (input s)) \<Longrightarrow>
   LineNumber s1 = Inr (1 + int (length (filter (\<lambda>b. b = 0x0A) (take (nat (Pos it)) (input s)))))
   \<and> (\<forall>p q w. LineNumber (s1\<lparr>pos := p, start := q, width := w\<rparr>) = LineNumber s1)"
  by (auto simp: NextItem_def LineNumber_def slice_def CountByte_filter split: list.splits)

theorem LineNumber_handoff_witness:
  "NextItem ((New [] [0x0A, 0x62])\<lparr>items := [\<lparr>Typ = 1, Pos = 1, Val = [0x62]\<rparr>]\<rparr>) =
     Some (\<lparr>Typ = 1, Pos = 1, Val = [0x62]\<rparr>,
           (New [] [0x0A, 0x62])\<lparr>items := [], lastPos := 1\<rparr>)
   \<and> LineNumber ((New [] [0x0A, 0x62])\<lparr>items := [], lastPos := 1\<rparr>) = Inr 2
   \<and> LineNumber ((New [] [0x0A, 0x62])\<lparr>items := [], lastPos := 1, pos := 2, start := 2,
        width := 1\<rparr>) = Inr 2"
proof -
  let ?s = "(New [] [0x0A, 0x62])\<lparr>items := [\<lparr>Typ = 1, Pos = 1, Val = [0x62]\<rparr>]\<rparr>"
  let ?it = "\<lparr>Typ = 1, Pos = 1, Val = [0x62 :: byte]\<rparr>"
  let ?s1 = "(New [] [0x0A, 0x62])\<lparr>items := [], lastPos := 1\<rparr>"
  have n: "NextItem ?s = Some (?it, ?s1)" by (simp add: NextItem_def New_def)
  have a: "0 \<le> Pos ?it" by simp
  have b: "Pos ?it \<le> int (length (input ?s))" by (simp add: New_def)
  have c: "?s1\<lparr>pos := 2, start := 2, width := 1\<rparr> =
           (New [] [0x0A, 0x62])\<lparr>items := [], lastPos := 1, pos := 2, start := 2, width := 1\<rparr>"
    by (simp add: New_def)
  from LineNumber_handoff [OF n a b] have
    l1: "LineNumber ?s1 =
           Inr (1 + int (length (filter (\<lambda>b. b = 0x0A) (take (nat (Pos ?it)) (input ?s)))))"
    and l2: "LineNumber (?s1\<lparr>pos := 2, start := 2, width := 1\<rparr>) = LineNumber ?s1"
    by blast+
  from l1 have l3: "LineNumber ?s1 = Inr 2" by (simp add: New_def)
  from n c l2 l3 show ?thesis by simp
qed

text \<open>
  C5, as the claim states it, fails: on the input \<open>"\nb"\<close>, after the newline has been
  ignored and the token \<open>"b"\<close> at position 1 emitted and handed off, one newline lies
  before the token and \<open>LineNumber\<close> is 2.
\<close>

theorem LineNumber_counterexample:
  "exec (\<lambda>f (a :: unit list). f) [ONext, OIgnore, ONext, OEmit 1] (New [] [0x0A, 0x62]) =
     Inr \<lparr>name = [], input = [0x0A, 0x62], pos = 2, start = 2, width = 1, lastPos = 0,
          items = [\<lparr>Typ = 1, Pos = 1, Val = [0x62]\<rparr>], parenDepth = 0, backups = 0,
          trace = [Ignored 0 1, Emitted \<lparr>Typ = 1, Pos = 1, Val = [0x62]\<rparr>]\<rparr>
   \<and> NextItem \<lparr>name = [], input = [0x0A, 0x62], pos = 2, start = 2, width = 1, lastPos = 0,
          items = [\<lparr>Typ = 1, Pos = 1, Val = [0x62]\<rparr>], parenDepth = 0, backups = 0,
          trace = [Ignored 0 1, Emitted \<lparr>Typ = 1, Pos = 1, Val = [0x62]\<rparr>]\<rparr> =
     Some (\<lparr>Typ = 1, Pos = 1, Val = [0x62]\<rparr>,
          \<lparr>name = [], input = [0x0A, 0x62], pos = 2, start = 2, width = 1, lastPos = 1,
          items = [], parenDepth = 0, backups = 0,
          trace = [Ignored 0 1, Emitted \<lparr>Typ = 1, Pos = 1, Val = [0x62]\<rparr>]\<rparr>)
   \<and> LineNumber \<lparr>name = [], input = [0x0A, 0x62], pos = 2, start = 2, width = 1, lastPos = 1,
          items = [], parenDepth = 0, backups = 0,
          trace = [Ignored 0 1, Emitted \<lparr>Typ = 1, Pos = 1, Val = [0x62]\<rparr>]\<rparr> = Inr 2
   \<and> length (filter (\<lambda>b. b = 0x0A) (take 1 [0x0A, 0x62 :: byte])) = 1"
  by (simp add: New_def Next_def Ignore_def Emit_def slice_def DecodeRuneInString_def
      utf8_first_def Let_def NextItem_def LineNumber_def)

subsection \<open>Errorf and the driver\<close>



subsection \<open>AcceptRun\<close>

lemma unit_at_member_inside:
  "0 \<le> IndexRune valid (fst (unit_at inp p)) \<Longrightarrow> p < int (length inp)"
  using IndexRune_EOF [of valid] by (cases "int (length inp) \<le> p") (auto simp: unit_at_def)

lemma AcceptRun_loop_spec:
  "0 \<le> pos s \<Longrightarrow>
   \<exists>s1. AcceptRun_loop valid s = Inr s1 \<and> input s1 = input s \<and> start s1 = start s
     \<and> 0 \<le> width s1
     \<and> member_run valid (input s) (pos s) (pos s1 - width s1)
     \<and> IndexRune valid (fst (unit_at (input s) (pos s1 - width s1))) < 0
     \<and> (int (length (input s)) \<le> pos s \<longrightarrow> pos s1 - width s1 = pos s)"
proof (induction valid s rule: AcceptRun_loop.induct)
  case (1 valid s)
  let ?u = "unit_at (input s) (pos s)"
  let ?s' = "s\<lparr>width := snd ?u, pos := pos s + snd ?u, backups := 0\<rparr>"
  have n: "Next s = Inr (fst ?u, ?s')" using "1.prems" by (rule Next_unit_at)
  have w: "0 \<le> snd ?u" using unit_at_width [OF "1.prems", of "input s"] by simp
  show ?case
  proof (cases "0 \<le> IndexRune valid (fst ?u)")
    case True
    then have inside: "pos s < int (length (input s))" by (rule unit_at_member_inside)
    have p': "0 \<le> pos ?s'" using "1.prems" w by simp
    from "1.IH" [OF n refl True p'] obtain s1 where
      s1: "AcceptRun_loop valid ?s' = Inr s1" "input s1 = input s" "start s1 = start s"
        "0 \<le> width s1"
        "member_run valid (input s) (pos s + snd ?u) (pos s1 - width s1)"
        "IndexRune valid (fst (unit_at (input s) (pos s1 - width s1))) < 0"
      by auto
    have l: "AcceptRun_loop valid s = AcceptRun_loop valid ?s'"
      using n True by (simp add: AcceptRun_loop.simps [of valid s])
    have m: "member_run valid (input s) (pos s) (pos s1 - width s1)"
      using inside True s1(5) by (rule member_run.more)
    from l s1 m inside show ?thesis by simp
  next
    case False
    have l: "AcceptRun_loop valid s = Inr ?s'"
      using n False by (simp add: AcceptRun_loop.simps [of valid s])
    from l w False show ?thesis by (simp add: member_run.stop)
  qed
qed

text \<open>
  C9. \<open>AcceptRun\<close> returns, from every byte offset of every input and for every valid
  set: the model is a total function whose recursion is shown to end, and it does not
  panic. An iteration of the loop either moves the position forward or is at the end of
  the input, and \<open>EOF\<close> is in no valid set. On return every unit between the old and
  the new position is in the set, the unit at the new position is not (or the input
  ends there), and from the end of the input the position does not move.
\<close>

theorem AcceptRun_spec:
  "0 \<le> pos s \<Longrightarrow>
   \<exists>s1. AcceptRun valid s = Inr s1 \<and> input s1 = input s \<and> start s1 = start s
     \<and> member_run valid (input s) (pos s) (pos s1)
     \<and> IndexRune valid (fst (unit_at (input s) (pos s1))) < 0
     \<and> (int (length (input s)) \<le> pos s \<longrightarrow> pos s1 = pos s)
     \<and> IndexRune valid EOF < 0
     \<and> (\<forall>r s2. Next s = Inr (r, s2) \<longrightarrow> pos s < pos s2 \<or> r = EOF)"
proof -
  assume p: "0 \<le> pos s"
  from AcceptRun_loop_spec [OF p, of valid] obtain s1 where
    s1: "AcceptRun_loop valid s = Inr s1" "input s1 = input s" "start s1 = start s"
      "member_run valid (input s) (pos s) (pos s1 - width s1)"
      "IndexRune valid (fst (unit_at (input s) (pos s1 - width s1))) < 0"
      "int (length (input s)) \<le> pos s \<longrightarrow> pos s1 - width s1 = pos s"
    by blast
  have a: "AcceptRun valid s = Inr (Backup s1)" using s1(1) by (simp add: AcceptRun_def)
  have b: "pos (Backup s1) = pos s1 - width s1" "input (Backup s1) = input s1"
    "start (Backup s1) = start s1" by (simp_all add: Backup_def)
  have e: "IndexRune valid EOF < 0" by (simp add: IndexRune_EOF)
  have n: "pos s < pos s2 \<or> r = EOF" if "Next s = Inr (r, s2)" for r s2
    using Next_cases [OF that] by auto
  from a b s1 e n show ?thesis by auto
qed

theorem AcceptRun_spec_witness:
  "(0::int) \<le> pos (New [] [0x31, 0x32, 0x61])
   \<and> (\<exists>s1. AcceptRun [0x30, 0x31, 0x32, 0x33] (New [] [0x31, 0x32, 0x61]) = Inr s1
         \<and> pos s1 = 2
         \<and> member_run [0x30, 0x31, 0x32, 0x33] [0x31, 0x32, 0x61] 0 2
         \<and> IndexRune [0x30, 0x31, 0x32, 0x33] (fst (unit_at [0x31, 0x32, 0x61] 2)) < 0)
   \<and> (\<exists>s1. AcceptRun [0x30, 0x31, 0x32, 0x33] ((New [] [0x31, 0x32, 0x61])\<lparr>pos := 3\<rparr>) = Inr s1
         \<and> pos s1 = 3)
   \<and> Next (New [] [0x31, 0x32, 0x61]) =
       Inr (0x31, (New [] [0x31, 0x32, 0x61])\<lparr>width := 1, pos := 1\<rparr>)"
proof -
  let ?s = "New [] [0x31, 0x32, 0x61]"
  let ?e = "?s\<lparr>pos := 3\<rparr>"
  let ?v = "[0x30, 0x31, 0x32, 0x33] :: gostring"
  have p: "0 \<le> pos ?s" by (simp add: New_def)
  have i: "input ?s = [0x31, 0x32, 0x61]" "pos ?s = 0" by (simp_all add: New_def)
  have d: "DecodeRuneInString [0x31, 0x32, 0x61] = (0x31, 1)"
    "DecodeRuneInString [0x32, 0x61] = (0x32, 1)" "DecodeRuneInString [0x61] = (0x61, 1)"
    by (simp_all add: DecodeRuneInString_def utf8_first_def Let_def)
  have m: "IndexRune ?v 0x31 = 1" "IndexRune ?v 0x32 = 2" "IndexRune ?v 0x61 = -1"
    by (simp_all add: IndexRune_def RuneSelf_def byte_of_def)
  have e: "AcceptRun ?v ?s = Inr (?s\<lparr>width := 1, pos := 2, backups := 1\<rparr>)"
    by (simp add: AcceptRun_def AcceptRun_loop.simps Next_def New_def slice_def d m Backup_def)
  from AcceptRun_spec [OF p, of ?v] obtain s1 where
    s1: "AcceptRun ?v ?s = Inr s1" "member_run ?v (input ?s) (pos ?s) (pos s1)"
      "IndexRune ?v (fst (unit_at (input ?s) (pos s1))) < 0"
    and nx: "\<forall>r s2. Next ?s = Inr (r, s2) \<longrightarrow> pos ?s < pos s2 \<or> r = EOF"
    by blast
  from s1(1) e have "s1 = ?s\<lparr>width := 1, pos := 2, backups := 1\<rparr>" by simp
  then have "pos s1 = 2" by simp
  with s1 i have 1: "\<exists>s1. AcceptRun ?v ?s = Inr s1 \<and> pos s1 = 2
      \<and> member_run ?v [0x31, 0x32, 0x61] 0 2
      \<and> IndexRune ?v (fst (unit_at [0x31, 0x32, 0x61] 2)) < 0"
    by simp
  have q: "0 \<le> pos ?e" and l: "int (length (input ?e)) \<le> pos ?e" and y: "pos ?e = 3"
    by (simp_all add: New_def)
  from AcceptRun_spec [OF q, of ?v] l y have 2: "\<exists>s1. AcceptRun ?v ?e = Inr s1 \<and> pos s1 = 3"
    by auto
  have n: "Next ?s = Inr (0x31, ?s\<lparr>width := 1, pos := 1\<rparr>)"
    by (simp add: Next_def New_def slice_def d)
  with nx have "pos ?s < pos (?s\<lparr>width := 1, pos := 1\<rparr>) \<or> (0x31 :: int) = EOF" by blast
  from p 1 2 n show ?thesis by blast
qed

subsection \<open>Decoding what was encoded\<close>

lemma push_bit_or_small:
  "0 \<le> c \<Longrightarrow> c < 2 ^ n \<Longrightarrow> push_bit n a OR c = a * 2 ^ n + (c::int)"
proof -
  assume a: "0 \<le> c" "c < 2 ^ n"
  then have t: "take_bit n c = c" by (simp add: take_bit_int_eq_self)
  have "push_bit n a OR c = concat_bit n c a"
    by (simp add: concat_bit_def t or.commute)
  also have "\<dots> = c + push_bit n a" by (simp add: concat_bit_eq t)
  finally show ?thesis by (simp add: push_bit_eq_mult)
qed

lemma uint_byte_of: "uint (byte_of x) = x mod 256"
  by (simp add: byte_of_def uint_word_of_int)

lemma uint_and_low:
  "uint (b AND (0x3F::byte)) = uint b mod 64"
  "uint (b AND (0x1F::byte)) = uint b mod 32"
  "uint (b AND (0x0F::byte)) = uint b mod 16"
  "uint (b AND (0x07::byte)) = uint b mod 8"
proof -
  have m: "(63::int) = mask 6" "(31::int) = mask 5" "(15::int) = mask 4" "(7::int) = mask 3"
    by (simp_all add: mask_eq_exp_minus_1)
  show "uint (b AND (0x3F::byte)) = uint b mod 64"
    by (simp add: uint_and m(1) flip: take_bit_eq_mask) (simp add: take_bit_eq_mod)
  show "uint (b AND (0x1F::byte)) = uint b mod 32"
    by (simp add: uint_and m(2) flip: take_bit_eq_mask) (simp add: take_bit_eq_mod)
  show "uint (b AND (0x0F::byte)) = uint b mod 16"
    by (simp add: uint_and m(3) flip: take_bit_eq_mask) (simp add: take_bit_eq_mod)
  show "uint (b AND (0x07::byte)) = uint b mod 8"
    by (simp add: uint_and m(4) flip: take_bit_eq_mask) (simp add: take_bit_eq_mod)
qed

lemma uint_or_tag:
  "uint w < 64 \<Longrightarrow> uint ((0x80::byte) OR w) = 128 + uint w"
  "uint w < 32 \<Longrightarrow> uint ((0xC0::byte) OR w) = 192 + uint w"
  "uint w < 16 \<Longrightarrow> uint ((0xE0::byte) OR w) = 224 + uint w"
  "uint w < 8 \<Longrightarrow> uint ((0xF0::byte) OR w) = 240 + uint w"
  using push_bit_or_small [of "uint w" 6 2] push_bit_or_small [of "uint w" 5 6]
    push_bit_or_small [of "uint w" 4 14] push_bit_or_small [of "uint w" 3 30]
  by (simp_all add: uint_or)


lemma mod_tag: "0 \<le> a \<Longrightarrow> a < n \<Longrightarrow> (k * n + a) mod n = (a::int)"
  by simp

lemma utf8_first_uint:
  "utf8_first b =
     (if uint b < 128 then 0xF0
      else if uint b < 194 then 0xF1
      else if uint b < 224 then 0x02
      else if uint b = 224 then 0x13
      else if uint b < 237 then 0x03
      else if uint b = 237 then 0x23
      else if uint b < 240 then 0x03
      else if uint b = 240 then 0x34
      else if uint b < 244 then 0x04
      else if uint b = 244 then 0x44
      else 0xF1)"
  by (simp add: utf8_first_def word_less_alt word_uint_eq_iff)

lemma decode1:
  assumes "uint s0 < 128"
  shows "DecodeRuneInString (s0 # rest) = (uint s0, 1)"
  using assms by (simp add: DecodeRuneInString_def Let_def utf8_first_uint)

lemma decode2:
  assumes "uint s0 = 192 + a" "2 \<le> a" "a < 32" "uint s1 = 128 + c" "0 \<le> c" "c < 64"
  shows "DecodeRuneInString (s0 # s1 # rest) = (a * 64 + c, 2)"
proof -
  have f: "utf8_first s0 = 0x02" using assms by (simp add: utf8_first_uint)
  have l: "uint (s0 AND 0x1F) = a" "uint (s1 AND 0x3F) = c"
    using assms mod_tag [of a 32 6] mod_tag [of c 64 2] by (simp_all add: uint_and_low)
  have r: "push_bit 6 (uint (s0 AND 0x1F)) OR uint (s1 AND 0x3F) = a * 64 + c"
    using assms push_bit_or_small [of c 6 a] by (simp add: l)
  have c1: "\<not> s1 < 0x80" "\<not> 0xBF < s1" using assms by (simp_all add: word_less_alt)
  show ?thesis
    by (simp add: DecodeRuneInString_def Let_def f acceptRanges_def c1 r)
qed

lemma decode3:
  assumes "uint s0 = 224 + a" "0 \<le> a" "a < 16" "uint s1 = 128 + b" "0 \<le> b" "b < 64"
    "uint s2 = 128 + c" "0 \<le> c" "c < 64" "a = 0 \<longrightarrow> 32 \<le> b" "a = 13 \<longrightarrow> b < 32"
  shows "DecodeRuneInString (s0 # s1 # s2 # rest) = (a * 4096 + b * 64 + c, 3)"
proof -
  have f: "utf8_first s0 = (if a = 0 then 0x13 else if a = 13 then 0x23 else 0x03)"
    using assms by (simp add: utf8_first_uint)
  have l: "uint (s0 AND 0x0F) = a" "uint (s1 AND 0x3F) = b" "uint (s2 AND 0x3F) = c"
    using assms mod_tag [of a 16 14] mod_tag [of b 64 2] mod_tag [of c 64 2]
    by (simp_all add: uint_and_low)
  have "push_bit 6 (uint (s1 AND 0x3F)) OR uint (s2 AND 0x3F) = b * 64 + c"
    using assms push_bit_or_small [of c 6 b] by (simp add: l)
  moreover have "push_bit 12 (uint (s0 AND 0x0F)) OR (b * 64 + c) = a * 4096 + (b * 64 + c)"
    using assms push_bit_or_small [of "b * 64 + c" 12 a] by (simp add: l)
  ultimately have r: "push_bit 12 (uint (s0 AND 0x0F)) OR push_bit 6 (uint (s1 AND 0x3F))
      OR uint (s2 AND 0x3F) = a * 4096 + b * 64 + c"
    by (simp add: or.assoc)
  have c1: "\<not> s1 < 0x80" "\<not> 0xBF < s1" "a = 0 \<Longrightarrow> \<not> s1 < 0xA0" "a = 13 \<Longrightarrow> \<not> 0x9F < s1"
    "\<not> s2 < 0x80" "\<not> 0xBF < s2"
    using assms by (simp_all add: word_less_alt)
  show ?thesis
    by (simp add: DecodeRuneInString_def Let_def f acceptRanges_def c1 r)
qed

lemma decode4:
  assumes "uint s0 = 240 + a" "0 \<le> a" "a \<le> 4" "uint s1 = 128 + b" "0 \<le> b" "b < 64"
    "uint s2 = 128 + c" "0 \<le> c" "c < 64" "uint s3 = 128 + d" "0 \<le> d" "d < 64"
    "a = 0 \<longrightarrow> 16 \<le> b" "a = 4 \<longrightarrow> b < 16"
  shows "DecodeRuneInString (s0 # s1 # s2 # s3 # rest) = (a * 262144 + b * 4096 + c * 64 + d, 4)"
proof -
  have f: "utf8_first s0 = (if a = 0 then 0x34 else if a = 4 then 0x44 else 0x04)"
    using assms by (simp add: utf8_first_uint)
  have l: "uint (s0 AND 0x07) = a" "uint (s1 AND 0x3F) = b" "uint (s2 AND 0x3F) = c"
    "uint (s3 AND 0x3F) = d"
    using assms mod_tag [of a 8 30] mod_tag [of b 64 2] mod_tag [of c 64 2] mod_tag [of d 64 2]
    by (simp_all add: uint_and_low)
  have "push_bit 6 (uint (s2 AND 0x3F)) OR uint (s3 AND 0x3F) = c * 64 + d"
    using assms push_bit_or_small [of d 6 c] by (simp add: l)
  moreover have "push_bit 12 (uint (s1 AND 0x3F)) OR (c * 64 + d) = b * 4096 + (c * 64 + d)"
    using assms push_bit_or_small [of "c * 64 + d" 12 b] by (simp add: l)
  moreover have "push_bit 18 (uint (s0 AND 0x07)) OR (b * 4096 + (c * 64 + d))
      = a * 262144 + (b * 4096 + (c * 64 + d))"
    using assms push_bit_or_small [of "b * 4096 + (c * 64 + d)" 18 a] by (simp add: l)
  ultimately have r: "push_bit 18 (uint (s0 AND 0x07)) OR push_bit 12 (uint (s1 AND 0x3F))
      OR push_bit 6 (uint (s2 AND 0x3F)) OR uint (s3 AND 0x3F)
      = a * 262144 + b * 4096 + c * 64 + d"
    by (simp add: or.assoc)
  have c1: "\<not> s1 < 0x80" "\<not> 0xBF < s1" "a = 0 \<Longrightarrow> \<not> s1 < 0x90" "a = 4 \<Longrightarrow> \<not> 0x8F < s1"
    "\<not> s2 < 0x80" "\<not> 0xBF < s2" "\<not> s3 < 0x80" "\<not> 0xBF < s3"
    using assms by (simp_all add: word_less_alt)
  show ?thesis
    by (simp add: DecodeRuneInString_def Let_def f acceptRanges_def c1 r)
qed

lemma mod_shift: "(k * n + a) mod n = a mod (n::int)"
  by simp

lemma second_byte_lower4:
  "65536 \<le> r \<Longrightarrow> r div 262144 = 0 \<longrightarrow> 16 \<le> r div 4096 mod 64" for r :: int
proof
  assume a: "65536 \<le> r" and z: "r div 262144 = 0"
  from a z have "r < 262144" by linarith
  then have "r div 4096 < 64" by linarith
  moreover from a have "16 \<le> r div 4096" by linarith
  ultimately show "16 \<le> r div 4096 mod 64" by simp
qed
lemma second_byte_upper4:
  "r \<le> 0x10FFFF \<Longrightarrow> 0 \<le> r \<Longrightarrow> r div 262144 = 4 \<longrightarrow> r div 4096 mod 64 < 16"
  for r :: int
proof
  assume a: "r \<le> 0x10FFFF" "0 \<le> r" and z: "r div 262144 = 4"
  from z have "1048576 \<le> r" by linarith
  then have "r = 1048576 + (r - 1048576)" "0 \<le> r - 1048576" "r - 1048576 < 65536" using a by simp_all
  have "r div 4096 = 256 + (r - 1048576) div 4096" by linarith
  then have "r div 4096 mod 64 = (r - 1048576) div 4096 mod 64"
    using mod_shift [of 4 64 "(r - 1048576) div 4096"] by simp
  also have "(r - 1048576) div 4096 < 16" using a by linarith
  then have "(r - 1048576) div 4096 mod 64 = (r - 1048576) div 4096" using \<open>1048576 \<le> r\<close> by simp
  finally show "r div 4096 mod 64 < 16" using \<open>(r - 1048576) div 4096 < 16\<close> by simp
qed
lemma digits4:
  "r div 262144 * 262144 + r div 4096 mod 64 * 4096 + r div 64 mod 64 * 64 + r mod 64 = r"
  for r :: int
proof -
  have "r div 262144 = r div 4096 div 64" using zdiv_zmult2_eq [of 64 r 4096] by simp
  then have "r div 4096 = r div 262144 * 64 + r div 4096 mod 64" by simp
  moreover have "r div 4096 = r div 64 div 64" using zdiv_zmult2_eq [of 64 r 64] by simp
  then have "r div 64 = r div 4096 * 64 + r div 64 mod 64" by simp
  moreover have "r = r div 64 * 64 + r mod 64" by simp
  ultimately show ?thesis by linarith
qed
lemma second_byte_lower3:
  "2048 \<le> r \<Longrightarrow> r div 4096 = 0 \<longrightarrow> 32 \<le> r div 64 mod 64" for r :: int
proof
  assume a: "2048 \<le> r" and z: "r div 4096 = 0"
  from a z have "r < 4096" by linarith
  then have "r div 64 < 64" by linarith
  moreover from a have "32 \<le> r div 64" by linarith
  ultimately show "32 \<le> r div 64 mod 64" by simp
qed
lemma second_byte_upper3:
  "r < 0xD800 \<or> 0xDFFF < r \<Longrightarrow> 0 \<le> r \<Longrightarrow> r div 4096 = 13 \<longrightarrow> r div 64 mod 64 < 32"
  for r :: int
proof
  assume a: "r < 0xD800 \<or> 0xDFFF < r" "0 \<le> r" and z: "r div 4096 = 13"
  from z have b: "53248 \<le> r" "r < 57344" by linarith+
  with a have c: "r < 55296" by linarith
  have "r div 64 = 832 + (r - 53248) div 64" by linarith
  then have "r div 64 mod 64 = (r - 53248) div 64 mod 64"
    using mod_shift [of 13 64 "(r - 53248) div 64"] by simp
  also have d: "(r - 53248) div 64 < 32" using c by linarith
  then have "(r - 53248) div 64 mod 64 = (r - 53248) div 64" using b by simp
  finally show "r div 64 mod 64 < 32" using d by simp
qed
lemma digits3:
  "r div 4096 * 4096 + r div 64 mod 64 * 64 + r mod 64 = r" for r :: int
proof -
  have "r div 4096 = r div 64 div 64" using zdiv_zmult2_eq [of 64 r 64] by simp
  then have "r div 64 = r div 4096 * 64 + r div 64 mod 64" by simp
  moreover have "r = r div 64 * 64 + r mod 64" by simp
  ultimately show ?thesis by linarith
qed

lemma low6: "uint (byte_of x AND 0x3F) = x mod 64"
proof -
  have "(x mod 256) mod 64 = x mod 64" by (rule mod_mod_cancel) simp
  then show ?thesis by (simp add: uint_and_low uint_byte_of)
qed

lemma cont_byte: "uint (0x80 OR (byte_of x AND 0x3F)) = 128 + x mod 64"
  using uint_or_tag(1) [of "byte_of x AND 0x3F"] by (simp add: low6)

lemma small_byte: "0 \<le> x \<Longrightarrow> x < 256 \<Longrightarrow> uint (byte_of x) = x"
  by (simp add: uint_byte_of)

lemma decode_encode2:
  assumes "0x80 \<le> r" "r \<le> 0x7FF"
  shows "DecodeRuneInString (EncodeRune r @ rest) = (r, 2)"
proof -
  let ?a = "r div 64" and ?c = "r mod 64"
  have a: "2 \<le> ?a" "?a < 32" using assms by simp_all
  have e: "EncodeRune r = [0xC0 OR byte_of ?a, 0x80 OR (byte_of r AND 0x3F)]"
    using assms by (simp add: EncodeRune_def drop_bit_eq_div)
  have u0: "uint (0xC0 OR byte_of ?a) = 192 + ?a"
    using a uint_or_tag(2) [of "byte_of ?a"] by (simp add: small_byte)
  have "DecodeRuneInString (EncodeRune r @ rest) = (?a * 64 + ?c, 2)"
    unfolding e using a by (simp add: decode2 [OF u0 _ _ cont_byte])
  then show ?thesis by simp
qed


lemma decode_encode1:
  assumes "0 \<le> r" "r \<le> 0x7F"
  shows "DecodeRuneInString (EncodeRune r @ rest) = (r, 1)"
proof -
  have e: "EncodeRune r = [byte_of r]" using assms by (simp add: EncodeRune_def)
  have u: "uint (byte_of r) = r" using assms by (simp add: small_byte)
  show ?thesis unfolding e using assms decode1 [of "byte_of r" rest] by (simp add: u)
qed

lemma decode_encode3:
  assumes "0x800 \<le> r" "r \<le> 0xFFFF" "r < 0xD800 \<or> 0xDFFF < r"
  shows "DecodeRuneInString (EncodeRune r @ rest) = (r, 3)"
proof -
  let ?a = "r div 4096" and ?b = "r div 64 mod 64" and ?c = "r mod 64"
  have a: "0 \<le> ?a" "?a < 16" using assms by simp_all
  have b: "0 \<le> ?b" "?b < 64" "0 \<le> ?c" "?c < 64" by simp_all
  have e: "EncodeRune r = [0xE0 OR byte_of ?a, 0x80 OR (byte_of (r div 64) AND 0x3F),
      0x80 OR (byte_of r AND 0x3F)]"
    using assms by (auto simp: EncodeRune_def drop_bit_eq_div MaxRune_def surrogateMin_def
        surrogateMax_def)
  have u0: "uint (0xE0 OR byte_of ?a) = 224 + ?a"
    using a uint_or_tag(3) [of "byte_of ?a"] by (simp add: small_byte)
  have lo: "?a = 0 \<longrightarrow> 32 \<le> ?b" using assms(1) by (rule second_byte_lower3)
  have hi: "?a = 13 \<longrightarrow> ?b < 32" using assms by (intro second_byte_upper3) simp_all
  have v: "?a * 4096 + ?b * 64 + ?c = r" by (rule digits3)
  have "DecodeRuneInString (EncodeRune r @ rest) = (?a * 4096 + ?b * 64 + ?c, 3)"
    unfolding e using decode3 [OF u0 a cont_byte b(1,2) cont_byte b(3,4) lo hi] by simp
  with v show ?thesis by simp
qed

lemma decode_encode4:
  assumes "0x10000 \<le> r" "r \<le> 0x10FFFF"
  shows "DecodeRuneInString (EncodeRune r @ rest) = (r, 4)"
proof -
  let ?a = "r div 262144" and ?b = "r div 4096 mod 64" and ?c = "r div 64 mod 64"
    and ?d = "r mod 64"
  have a: "0 \<le> ?a" "?a \<le> 4" using assms by simp_all
  have b: "0 \<le> ?b" "?b < 64" "0 \<le> ?c" "?c < 64" "0 \<le> ?d" "?d < 64" by simp_all
  have e: "EncodeRune r = [0xF0 OR byte_of ?a, 0x80 OR (byte_of (r div 4096) AND 0x3F),
      0x80 OR (byte_of (r div 64) AND 0x3F), 0x80 OR (byte_of r AND 0x3F)]"
    using assms by (auto simp: EncodeRune_def drop_bit_eq_div MaxRune_def surrogateMin_def
        surrogateMax_def)
  have u0: "uint (0xF0 OR byte_of ?a) = 240 + ?a"
    using a uint_or_tag(4) [of "byte_of ?a"] by (simp add: small_byte)
  have lo: "?a = 0 \<longrightarrow> 16 \<le> ?b" using assms(1) by (rule second_byte_lower4)
  have hi: "?a = 4 \<longrightarrow> ?b < 16" using assms by (intro second_byte_upper4) simp_all
  have v: "?a * 262144 + ?b * 4096 + ?c * 64 + ?d = r" by (rule digits4)
  have "DecodeRuneInString (EncodeRune r @ rest)
      = (?a * 262144 + ?b * 4096 + ?c * 64 + ?d, 4)"
    unfolding e
    using decode4 [OF u0 a cont_byte b(1,2) cont_byte b(3,4) cont_byte b(5,6) lo hi] by simp
  with v show ?thesis by simp
qed


lemma decode_encode:
  assumes "ValidRune r"
  shows "DecodeRuneInString (EncodeRune r @ rest) = (r, int (length (EncodeRune r)))"
proof -
  from assms have v: "0 \<le> r" "r \<le> 0x10FFFF" "r < 0xD800 \<or> 0xDFFF < r"
    by (auto simp: ValidRune_def surrogateMin_def surrogateMax_def MaxRune_def split: if_splits)
  consider "r \<le> 0x7F" | "0x80 \<le> r" "r \<le> 0x7FF" | "0x800 \<le> r" "r \<le> 0xFFFF" | "0x10000 \<le> r"
    by linarith
  then show ?thesis
  proof cases
    case 1
    with v have "length (EncodeRune r) = 1" by (simp add: EncodeRune_def)
    with decode_encode1 [OF v(1) 1] show ?thesis by simp
  next
    case 2
    then have "length (EncodeRune r) = 2" by (simp add: EncodeRune_def)
    with decode_encode2 [OF 2] show ?thesis by simp
  next
    case 3
    with v have "length (EncodeRune r) = 3"
      by (auto simp: EncodeRune_def MaxRune_def surrogateMin_def surrogateMax_def)
    with decode_encode3 [OF 3 v(3)] show ?thesis by simp
  next
    case 4
    with v have "length (EncodeRune r) = 4"
      by (auto simp: EncodeRune_def MaxRune_def surrogateMin_def surrogateMax_def)
    with decode_encode4 [OF 4 v(2)] show ?thesis by simp
  qed
qed

subsection \<open>The cursor stays on unit boundaries\<close>

lemma boundary_range: "boundary inp p \<Longrightarrow> 0 \<le> p \<and> p \<le> int (length inp)"
proof (induction rule: boundary.induct)
  case first
  show ?case by simp
next
  case (after p)
  with unit_at_width [of p inp] show ?case by auto
qed

lemma boundary_step: "boundary inp p \<Longrightarrow> boundary inp (p + snd (unit_at inp p))"
proof (cases "p < int (length inp)")
  case True
  assume "boundary inp p"
  then show ?thesis using True by (rule boundary.after)
next
  case False
  assume "boundary inp p"
  with False show ?thesis by (simp add: unit_at_def)
qed

lemma Next_inv:
  assumes "cursor_inv s" and "Next s = Inr (r, s1)"
  shows "cursor_inv s1 \<and> input s1 = input s \<and> backups s1 = 0"
proof -
  from assms(1) have b: "boundary (input s) (pos s)" "boundary (input s) (start s)"
    by (simp_all add: cursor_inv_def)
  then have p: "0 \<le> pos s" using boundary_range by blast
  from Next_unit_at [OF p] assms(2) have
    s1: "s1 = s\<lparr>width := snd (unit_at (input s) (pos s)),
                 pos := pos s + snd (unit_at (input s) (pos s)), backups := 0\<rparr>"
    by simp
  from b boundary_step [OF b(1)] show ?thesis by (simp add: s1 cursor_inv_def)
qed

lemma Next_succeeds: "cursor_inv s \<Longrightarrow> \<exists>r s1. Next s = Inr (r, s1)"
  using boundary_range [of "input s" "pos s"] Next_unit_at [of s] by (auto simp: cursor_inv_def)

lemma Backup_inv:
  "cursor_inv s \<Longrightarrow> backups s = 0 \<Longrightarrow> cursor_inv (Backup s) \<and> input (Backup s) = input s"
  by (simp add: cursor_inv_def Backup_def)

lemma Peek_inv:
  assumes "cursor_inv s" and "Peek s = Inr (r, s1)"
  shows "cursor_inv s1 \<and> input s1 = input s"
proof -
  from assms(2) obtain s2 where n: "Next s = Inr (r, s2)" and e: "s1 = Backup s2"
    by (auto simp: Peek_def split: sum.splits)
  from Next_inv [OF assms(1) n] Backup_inv [of s2] e show ?thesis by simp
qed

lemma Accept_inv:
  assumes "cursor_inv s" and "Accept valid s = Inr (b, s1)"
  shows "cursor_inv s1 \<and> input s1 = input s"
proof -
  from assms(2) obtain r s2 where n: "Next s = Inr (r, s2)" and e: "s1 = s2 \<or> s1 = Backup s2"
    by (auto simp: Accept_def split: sum.splits if_splits)
  from Next_inv [OF assms(1) n] Backup_inv [of s2] e show ?thesis by auto
qed

lemma AcceptRun_loop_inv:
  "cursor_inv s \<Longrightarrow> AcceptRun_loop valid s = Inr s1 \<Longrightarrow>
   cursor_inv s1 \<and> input s1 = input s \<and> backups s1 = 0"
proof (induction valid s rule: AcceptRun_loop.induct)
  case (1 valid s)
  from Next_succeeds [OF "1.prems"(1)] obtain r s2 where n: "Next s = Inr (r, s2)" by blast
  note i = Next_inv [OF "1.prems"(1) n]
  show ?case
  proof (cases "0 \<le> IndexRune valid r")
    case True
    with n "1.prems"(2) have "AcceptRun_loop valid s2 = Inr s1"
      by (simp add: AcceptRun_loop.simps [of valid s])
    with "1.IH" [OF n refl True] i show ?thesis by simp
  next
    case False
    with n "1.prems"(2) have "s1 = s2" by (simp add: AcceptRun_loop.simps [of valid s])
    with i show ?thesis by simp
  qed
qed

lemma AcceptRun_inv:
  assumes "cursor_inv s" and "AcceptRun valid s = Inr s1"
  shows "cursor_inv s1 \<and> input s1 = input s"
proof -
  from assms(2) obtain s2 where l: "AcceptRun_loop valid s = Inr s2" and e: "s1 = Backup s2"
    by (auto simp: AcceptRun_def split: sum.splits)
  from AcceptRun_loop_inv [OF assms(1) l] Backup_inv [of s2] e show ?thesis by simp
qed

lemma Emit_inv: "cursor_inv s \<Longrightarrow> Emit t s = Inr s1 \<Longrightarrow> cursor_inv s1 \<and> input s1 = input s"
  by (auto simp: cursor_inv_def Emit_def Let_def split: sum.splits)

lemma Ignore_inv: "cursor_inv s \<Longrightarrow> cursor_inv (Ignore s) \<and> input (Ignore s) = input s"
  by (simp add: cursor_inv_def Ignore_def)

lemma Errorf_inv:
  "cursor_inv s \<Longrightarrow>
   cursor_inv (snd (Errorf F format args s)) \<and> input (snd (Errorf F format args s)) = input s"
  by (simp add: cursor_inv_def Errorf_def Let_def)

lemma step_inv:
  assumes "cursor_inv s" and "step F x s = Inr s1" and "x = OBackup \<longrightarrow> backups s = 0"
  shows "cursor_inv s1 \<and> input s1 = input s"
proof (cases x)
  case ONext
  with assms(2) obtain r where "Next s = Inr (r, s1)" by (auto split: sum.splits)
  with assms(1) show ?thesis using Next_inv by blast
next
  case OPeek
  with assms(2) obtain r where "Peek s = Inr (r, s1)" by (auto split: sum.splits)
  with assms(1) show ?thesis using Peek_inv by blast
next
  case OBackup
  with assms(2,3) have "s1 = Backup s" and "backups s = 0" by simp_all
  with assms(1) show ?thesis using Backup_inv [of s] by simp
next
  case (OAccept valid)
  with assms(2) obtain b where "Accept valid s = Inr (b, s1)" by (auto split: sum.splits)
  with assms(1) show ?thesis using Accept_inv by blast
next
  case (OAcceptRun valid)
  with assms(2) have "AcceptRun valid s = Inr s1" by simp
  with assms(1) show ?thesis using AcceptRun_inv by blast
next
  case (OEmit t)
  with assms(2) have "Emit t s = Inr s1" by simp
  with assms(1) show ?thesis using Emit_inv by blast
next
  case OIgnore
  with assms(2) have "s1 = Ignore s" by simp
  with assms(1) show ?thesis using Ignore_inv [of s] by simp
next
  case (OErrorf format args)
  with assms(2) have "s1 = snd (Errorf F format args s)" by simp
  with assms(1) show ?thesis using Errorf_inv [of s F format args] by simp
qed

lemma exec_inv:
  "cursor_inv s \<Longrightarrow> contract F xs s \<Longrightarrow> exec F xs s = Inr s1 \<Longrightarrow>
   cursor_inv s1 \<and> input s1 = input s"
proof (induction xs arbitrary: s)
  case Nil
  then show ?case by simp
next
  case (Cons x xs)
  from Cons.prems(3) obtain s2 where st: "step F x s = Inr s2" and ex: "exec F xs s2 = Inr s1"
    by (auto split: sum.splits)
  from Cons.prems(2) st have c: "x = OBackup \<longrightarrow> backups s = 0" and k: "contract F xs s2"
    by simp_all
  from step_inv [OF Cons.prems(1) st c] Cons.IH [OF _ k ex] show ?case by simp
qed

lemma New_inv: "cursor_inv (New nm inp)"
  by (simp add: cursor_inv_def New_def boundary.first)


lemma boundary_wellformed:
  assumes "\<forall>c\<in>set cs. ValidRune c" and "boundary (encode_all cs) p"
  shows "\<exists>k\<le>length cs. p = int (length (encode_all (take k cs)))"
  using assms(2)
proof (induction rule: boundary.induct)
  case first
  show ?case by (intro exI [of _ 0]) (simp add: encode_all_def)
next
  case (after p)
  then obtain k where k: "k \<le> length cs" "p = int (length (encode_all (take k cs)))" by blast
  have "k \<noteq> length cs" using k after.hyps(2) by auto
  with k have lt: "k < length cs" by simp
  then have v: "ValidRune (cs ! k)" using assms(1) by simp
  have "encode_all cs = encode_all (take k cs @ cs ! k # drop (Suc k) cs)"
    by (rule arg_cong [OF id_take_nth_drop [OF lt]])
  then have split: "encode_all cs =
      encode_all (take k cs) @ EncodeRune (cs ! k) @ encode_all (drop (Suc k) cs)"
    by (simp add: encode_all_def)
  have d: "drop (nat p) (encode_all cs) = EncodeRune (cs ! k) @ encode_all (drop (Suc k) cs)"
    by (subst split) (simp add: k)
  have u: "unit_at (encode_all cs) p = (cs ! k, int (length (EncodeRune (cs ! k))))"
    using after.hyps(2) by (simp add: unit_at_def d decode_encode [OF v])
  have "encode_all (take (Suc k) cs) = encode_all (take k cs) @ EncodeRune (cs ! k)"
    using lt by (simp add: encode_all_def take_Suc_conv_app_nth)
  with u have "p + snd (unit_at (encode_all cs) p) = int (length (encode_all (take (Suc k) cs)))"
    by (simp add: k)
  with lt show ?case by (intro exI [of _ "Suc k"]) simp
qed

text \<open>
  C3. In a run from a new scanner in which \<open>Backup\<close> is never called twice without a
  call of \<open>Next\<close> in between, the current position and the emission boundary are
  unit boundaries of the input after every operation that returns. When the input is
  the UTF-8 text of a sequence of code points, they are ends of whole encoded code
  points, never inside one.
\<close>

theorem cursor_on_boundaries:
  assumes "contract F xs (New nm inp)" and "exec F xs (New nm inp) = Inr s"
  shows "boundary inp (pos s) \<and> boundary inp (start s)
    \<and> (\<forall>cs. (\<forall>c\<in>set cs. ValidRune c) \<and> inp = encode_all cs \<longrightarrow>
          (\<exists>j k. j \<le> length cs \<and> k \<le> length cs
             \<and> start s = int (length (encode_all (take j cs)))
             \<and> pos s = int (length (encode_all (take k cs)))))"
proof -
  have i: "input (New nm inp) = inp" by (simp add: New_def)
  from exec_inv [OF New_inv assms] i have
    b: "boundary inp (pos s)" "boundary inp (start s)"
    by (auto simp: cursor_inv_def)
  have "\<exists>j k. j \<le> length cs \<and> k \<le> length cs
          \<and> start s = int (length (encode_all (take j cs)))
          \<and> pos s = int (length (encode_all (take k cs)))"
    if "\<forall>c\<in>set cs. ValidRune c" and "inp = encode_all cs" for cs
    using boundary_wellformed [OF that(1), of "pos s"] boundary_wellformed [OF that(1), of "start s"]
      b that(2) by blast
  with b show ?thesis by blast
qed

theorem cursor_on_boundaries_witness:
  "contract (\<lambda>f (a :: unit list). f)
     [ONext, OBackup, OPeek, ONext, OEmit 1, OAccept [0x61], OBackup, OAcceptRun [0x61], OIgnore]
     (New [] [0xC3, 0xA9, 0x61])
   \<and> exec (\<lambda>f (a :: unit list). f)
     [ONext, OBackup, OPeek, ONext, OEmit 1, OAccept [0x61], OBackup, OAcceptRun [0x61], OIgnore]
     (New [] [0xC3, 0xA9, 0x61]) =
     Inr \<lparr>name = [], input = [0xC3, 0xA9, 0x61], pos = 3, start = 3, width = 0, lastPos = 0,
          items = [\<lparr>Typ = 1, Pos = 0, Val = [0xC3, 0xA9]\<rparr>], parenDepth = 0, backups = 1,
          trace = [Emitted \<lparr>Typ = 1, Pos = 0, Val = [0xC3, 0xA9]\<rparr>, Ignored 2 3]\<rparr>
   \<and> boundary [0xC3, 0xA9, 0x61] 3
   \<and> [0xC3, 0xA9, 0x61] = encode_all [0xE9, 0x61]
   \<and> (\<exists>k\<le>2. (3::int) = int (length (encode_all (take k [0xE9, 0x61]))))"
proof -
  let ?F = "\<lambda>f (a :: unit list). f :: gostring"
  let ?xs = "[ONext, OBackup, OPeek, ONext, OEmit 1, OAccept [0x61], OBackup,
    OAcceptRun [0x61], OIgnore] :: unit op list"
  let ?s = "\<lparr>name = [], input = [0xC3, 0xA9, 0x61], pos = 3, start = 3, width = 0, lastPos = 0,
          items = [\<lparr>Typ = 1, Pos = 0, Val = [0xC3, 0xA9]\<rparr>], parenDepth = 0, backups = 1,
          trace = [Emitted \<lparr>Typ = 1, Pos = 0, Val = [0xC3, 0xA9]\<rparr>, Ignored 2 3]\<rparr>"
  have d: "DecodeRuneInString [0xC3, 0xA9, 0x61] = (0xE9, 2)"
    "DecodeRuneInString [0x61] = (0x61, 1)"
    by (simp_all add: DecodeRuneInString_def utf8_first_def Let_def acceptRanges_def)
  have m: "IndexRune [0x61] 0x61 = 0" "IndexRune [0x61] EOF = -1"
    by (simp add: IndexRune_def RuneSelf_def byte_of_def) (rule IndexRune_EOF)
  have c: "contract ?F ?xs (New [] [0xC3, 0xA9, 0x61])"
    by (simp add: New_def Next_def Peek_def Backup_def Emit_def Ignore_def Accept_def
        AcceptRun_def AcceptRun_loop.simps slice_def d m Let_def)
  have e: "exec ?F ?xs (New [] [0xC3, 0xA9, 0x61]) = Inr ?s"
    by (simp add: New_def Next_def Peek_def Backup_def Emit_def Ignore_def Accept_def
        AcceptRun_def AcceptRun_loop.simps slice_def d m Let_def)
  have enc: "[0xC3, 0xA9, 0x61] = encode_all [0xE9, 0x61]"
    by (simp add: encode_all_def EncodeRune_def byte_of_def drop_bit_eq_div)
  have v: "\<forall>c\<in>set [0xE9, 0x61 :: int]. ValidRune c"
    by (simp add: ValidRune_def surrogateMin_def)
  note t = cursor_on_boundaries [OF c e]
  from t have "boundary [0xC3, 0xA9, 0x61] (pos ?s)" by blast
  then have b: "boundary [0xC3, 0xA9, 0x61] 3" by simp
  from t v enc obtain j k where k: "k \<le> length [0xE9, 0x61 :: int]"
    and "pos ?s = int (length (encode_all (take k [0xE9, 0x61])))"
    by blast
  then have "(3::int) = int (length (encode_all (take k [0xE9, 0x61])))" by simp
  moreover from k have "k \<le> 2" by simp
  ultimately have w: "\<exists>k\<le>2. (3::int) = int (length (encode_all (take k [0xE9, 0x61])))"
    by blast
  from c e b enc w show ?thesis by blast
qed

text \<open>
  The precondition is about every call of \<open>Backup\<close>, also the one that \<open>Peek\<close>
  makes. On an input whose first character takes two bytes, \<open>Next\<close>, \<open>Peek\<close>,
  \<open>Backup\<close> breaks it: the width is by then that of the unit peeked, and the position
  ends at offset 1, inside the character.
\<close>

lemma Backup_after_Peek:
  "\<not> contract (\<lambda>f (a :: unit list). f) [ONext, OPeek, OBackup] (New [] [0xC3, 0xA9, 0x61])
   \<and> exec (\<lambda>f (a :: unit list). f) [ONext, OPeek, OBackup] (New [] [0xC3, 0xA9, 0x61]) =
       Inr \<lparr>name = [], input = [0xC3, 0xA9, 0x61], pos = 1, start = 0, width = 1, lastPos = 0,
            items = [], parenDepth = 0, backups = 2, trace = []\<rparr>
   \<and> \<not> boundary [0xC3, 0xA9, 0x61] 1"
proof -
  have d: "DecodeRuneInString [0xC3, 0xA9, 0x61] = (0xE9, 2)"
    "DecodeRuneInString [0x61] = (0x61, 1)"
    by (simp_all add: DecodeRuneInString_def utf8_first_def Let_def acceptRanges_def)
  have c: "\<not> contract (\<lambda>f (a :: unit list). f) [ONext, OPeek, OBackup] (New [] [0xC3, 0xA9, 0x61])"
    by (simp add: New_def Next_def Peek_def Backup_def slice_def d)
  have e: "exec (\<lambda>f (a :: unit list). f) [ONext, OPeek, OBackup] (New [] [0xC3, 0xA9, 0x61]) =
       Inr \<lparr>name = [], input = [0xC3, 0xA9, 0x61], pos = 1, start = 0, width = 1, lastPos = 0,
            items = [], parenDepth = 0, backups = 2, trace = []\<rparr>"
    by (simp add: New_def Next_def Peek_def Backup_def slice_def d)
  have "\<not> boundary [0xC3, 0xA9, 0x61] 1"
  proof
    assume "boundary [0xC3, 0xA9, 0x61] 1"
    then show False
    proof (cases rule: boundary.cases)
      case first
      then show False by simp
    next
      case (after p)
      from boundary_range [OF after(2)] unit_at_width [of p "[0xC3, 0xA9, 0x61]"] after(1,3)
      have "p = 0" by auto
      with after(1) show False by (simp add: unit_at_def d)
    qed
  qed
  with c e show ?thesis by blast
qed

subsection \<open>Ill-formed bytes\<close>

lemma div_tag: "0 \<le> x \<Longrightarrow> x < n \<Longrightarrow> (k * n + x) div n = (k::int)"
  by simp

lemma map_uint_eq: "map uint xs = map uint ys \<Longrightarrow> xs = (ys :: byte list)"
  by (simp add: inj_map_eq_map inj_on_def word_uint_eq_iff)

lemma EncodeRune_uint1:
  assumes "0 \<le> r" "r \<le> 0x7F"
  shows "map uint (EncodeRune r) = [r]"
  using assms by (simp add: EncodeRune_def small_byte)

lemma EncodeRune_uint2:
  assumes "0x80 \<le> r" "r \<le> 0x7FF"
  shows "map uint (EncodeRune r) = [192 + r div 64, 128 + r mod 64]"
proof -
  have a: "0 \<le> r div 64" "r div 64 < 32" using assms by simp_all
  have e: "EncodeRune r = [0xC0 OR byte_of (r div 64), 0x80 OR (byte_of r AND 0x3F)]"
    using assms by (simp add: EncodeRune_def drop_bit_eq_div)
  have u0: "uint (0xC0 OR byte_of (r div 64)) = 192 + r div 64"
    using a uint_or_tag(2) [of "byte_of (r div 64)"] by (simp add: small_byte)
  show ?thesis by (simp add: e u0 cont_byte)
qed

lemma EncodeRune_uint3:
  assumes "0x800 \<le> r" "r \<le> 0xFFFF" "r < 0xD800 \<or> 0xDFFF < r"
  shows "map uint (EncodeRune r) = [224 + r div 4096, 128 + r div 64 mod 64, 128 + r mod 64]"
proof -
  have a: "0 \<le> r div 4096" "r div 4096 < 16" using assms by simp_all
  have e: "EncodeRune r = [0xE0 OR byte_of (r div 4096), 0x80 OR (byte_of (r div 64) AND 0x3F),
      0x80 OR (byte_of r AND 0x3F)]"
    using assms by (auto simp: EncodeRune_def drop_bit_eq_div MaxRune_def surrogateMin_def
        surrogateMax_def)
  have u0: "uint (0xE0 OR byte_of (r div 4096)) = 224 + r div 4096"
    using a uint_or_tag(3) [of "byte_of (r div 4096)"] by (simp add: small_byte)
  show ?thesis by (simp add: e u0 cont_byte)
qed

lemma EncodeRune_uint4:
  assumes "0x10000 \<le> r" "r \<le> 0x10FFFF"
  shows "map uint (EncodeRune r) =
    [240 + r div 262144, 128 + r div 4096 mod 64, 128 + r div 64 mod 64, 128 + r mod 64]"
proof -
  have a: "0 \<le> r div 262144" "r div 262144 \<le> 4" using assms by simp_all
  have e: "EncodeRune r = [0xF0 OR byte_of (r div 262144),
      0x80 OR (byte_of (r div 4096) AND 0x3F),
      0x80 OR (byte_of (r div 64) AND 0x3F), 0x80 OR (byte_of r AND 0x3F)]"
    using assms by (auto simp: EncodeRune_def drop_bit_eq_div MaxRune_def surrogateMin_def
        surrogateMax_def)
  have u0: "uint (0xF0 OR byte_of (r div 262144)) = 240 + r div 262144"
    using a uint_or_tag(4) [of "byte_of (r div 262144)"] by (simp add: small_byte)
  show ?thesis by (simp add: e u0 cont_byte)
qed

lemma decode_bad_lead:
  "utf8_first s0 = 0xF1 \<Longrightarrow> DecodeRuneInString (s0 # t) = (RuneError, 1)"
  by (simp add: DecodeRuneInString_def Let_def)

lemma decode_short:
  assumes "utf8_first s0 \<in> {0x02, 0x13, 0x03, 0x23, 0x34, 0x04, 0x44}"
    and "int (length (s0 # t)) < uint (utf8_first s0 AND 7)"
  shows "DecodeRuneInString (s0 # t) = (RuneError, 1)"
  using assms
  apply (simp only: insert_iff empty_iff)
  apply (elim disjE)
        apply (simp_all add: DecodeRuneInString_def Let_def)
  done

lemma decode_second_fail:
  assumes "utf8_first s0 \<in> {0x02, 0x13, 0x03, 0x23, 0x34, 0x04, 0x44}"
    and "s1 < fst (acceptRanges (drop_bit 4 (utf8_first s0)))
         \<or> snd (acceptRanges (drop_bit 4 (utf8_first s0))) < s1"
  shows "DecodeRuneInString (s0 # s1 # t) = (RuneError, 1)"
  using assms
  apply (simp only: insert_iff empty_iff)
  apply (elim disjE)
        apply (simp_all add: DecodeRuneInString_def Let_def acceptRanges_def)
  done

lemma decode_third_fail:
  assumes "utf8_first s0 \<in> {0x13, 0x03, 0x23, 0x34, 0x04, 0x44}"
    and "s2 < 0x80 \<or> 0xBF < s2"
  shows "DecodeRuneInString (s0 # s1 # s2 # t) = (RuneError, 1)"
  using assms
  apply (simp only: insert_iff empty_iff)
  apply (elim disjE)
       apply (simp_all add: DecodeRuneInString_def Let_def acceptRanges_def)
  done

lemma decode_fourth_fail:
  assumes "utf8_first s0 \<in> {0x34, 0x04, 0x44}"
    and "s3 < 0x80 \<or> 0xBF < s3"
  shows "DecodeRuneInString (s0 # s1 # s2 # s3 # t) = (RuneError, 1)"
  using assms
  apply (simp only: insert_iff empty_iff)
  apply (elim disjE)
    apply (simp_all add: DecodeRuneInString_def Let_def acceptRanges_def)
  done

lemma wellformed1:
  assumes "uint s0 < 128"
  shows "\<exists>c rest. ValidRune c \<and> s0 # t = EncodeRune c @ rest"
proof -
  let ?r = "uint s0"
  have r: "0 \<le> ?r" "?r \<le> 0x7F" using assms by simp_all
  have "map uint (EncodeRune ?r) = map uint [s0]" using EncodeRune_uint1 [OF r] by simp
  then have "EncodeRune ?r = [s0]" by (rule map_uint_eq)
  moreover have "ValidRune ?r" using r by (simp add: ValidRune_def surrogateMin_def)
  ultimately show ?thesis by (intro exI [of _ ?r] exI [of _ t]) simp
qed

lemma sound2:
  assumes "194 \<le> uint s0" "uint s0 < 224"
  shows "DecodeRuneInString (s0 # t) = (RuneError, 1)
    \<or> (\<exists>c rest. ValidRune c \<and> s0 # t = EncodeRune c @ rest)"
proof -
  have f: "utf8_first s0 = 0x02" using assms by (simp add: utf8_first_uint)
  show ?thesis
  proof (cases t)
    case Nil
    then show ?thesis using decode_short [of s0 t] by (simp add: f)
  next
    case (Cons s1 t')
    show ?thesis
    proof (cases "s1 < 0x80 \<or> 0xBF < s1")
      case True
      then show ?thesis using decode_second_fail [of s0 s1 t'] by (simp add: f Cons acceptRanges_def)
    next
      case False
      then have u1: "128 \<le> uint s1" "uint s1 \<le> 191" by (simp_all add: word_less_alt)
      let ?a = "uint s0 - 192" and ?c = "uint s1 - 128"
      let ?r = "?a * 64 + ?c"
      have d: "?r div 64 = ?a" using u1 by (intro div_tag) simp_all
      have m: "?r mod 64 = ?c" using u1 by (intro mod_tag) simp_all
      have r: "0x80 \<le> ?r" "?r \<le> 0x7FF" using assms u1 by simp_all
      have "map uint (EncodeRune ?r) = map uint [s0, s1]"
        using EncodeRune_uint2 [OF r] by (simp only: d m) simp
      then have "EncodeRune ?r = [s0, s1]" by (rule map_uint_eq)
      moreover have "ValidRune ?r" using r by (simp add: ValidRune_def surrogateMin_def)
      ultimately show ?thesis unfolding Cons by (intro disjI2 exI [of _ ?r] exI [of _ t']) simp
    qed
  qed
qed

lemma sound3:
  assumes "224 \<le> uint s0" "uint s0 < 240"
  shows "DecodeRuneInString (s0 # t) = (RuneError, 1)
    \<or> (\<exists>c rest. ValidRune c \<and> s0 # t = EncodeRune c @ rest)"
proof -
  let ?a = "uint s0 - 224"
  have f: "utf8_first s0 = (if ?a = 0 then 0x13 else if ?a = 13 then 0x23 else 0x03)"
    using assms by (simp add: utf8_first_uint)
  then have fs: "utf8_first s0 \<in> {0x02, 0x13, 0x03, 0x23, 0x34, 0x04, 0x44}"
    and ft: "utf8_first s0 \<in> {0x13, 0x03, 0x23, 0x34, 0x04, 0x44}"
    and sz: "uint (utf8_first s0 AND 7) = 3"
    by auto
  have short: ?thesis if "length t < 2"
    using decode_short [OF fs, of t] that by (simp add: sz)
  show ?thesis
  proof (cases t)
    case Nil
    then show ?thesis using short by simp
  next
    case c1: (Cons s1 t1)
    show ?thesis
    proof (cases t1)
      case Nil
      with c1 show ?thesis using short by simp
    next
      case c2: (Cons s2 t')
      let ?lo = "if ?a = 0 then (0xA0 :: byte) else 0x80"
      let ?hi = "if ?a = 13 then (0x9F :: byte) else 0xBF"
      have acc: "acceptRanges (drop_bit 4 (utf8_first s0)) = (?lo, ?hi)"
        by (simp add: f acceptRanges_def)
      show ?thesis
      proof (cases "s1 < ?lo \<or> ?hi < s1")
        case True
        then show ?thesis
          using decode_second_fail [OF fs, of s1 t1] unfolding acc c1 by simp
      next
        case s1ok: False
        show ?thesis
        proof (cases "s2 < 0x80 \<or> 0xBF < s2")
          case True
          then show ?thesis using decode_third_fail [OF ft, of s2 s1 t'] by (simp add: c1 c2)
        next
          case False
          then have u2: "128 \<le> uint s2" "uint s2 \<le> 191" by (simp_all add: word_less_alt)
          from s1ok have u1: "128 \<le> uint s1" "uint s1 \<le> 191"
            "?a = 0 \<longrightarrow> 160 \<le> uint s1" "?a = 13 \<longrightarrow> uint s1 \<le> 159"
            by (auto simp: word_less_alt split: if_splits)
          let ?b = "uint s1 - 128" and ?c = "uint s2 - 128"
          let ?r = "?a * 4096 + (?b * 64 + ?c)"
          have d1: "?r div 4096 = ?a" using u1 u2 by (intro div_tag) simp_all
          have e: "?r = (?a * 64 + ?b) * 64 + ?c" by simp
          have "?r div 64 = ?a * 64 + ?b" unfolding e using u2 by (intro div_tag) simp_all
          moreover have "(?a * 64 + ?b) mod 64 = ?b" using u1 by (intro mod_tag) simp_all
          ultimately have d2: "?r div 64 mod 64 = ?b" by simp
          have m: "?r mod 64 = ?c" unfolding e using u2 by (intro mod_tag) simp_all
          have r12: "0x800 \<le> ?r" "?r \<le> 0xFFFF" using assms u1 u2 by auto
          consider "?a < 13" | "?a = 13" | "13 < ?a" by linarith
          then have r3: "?r < 0xD800 \<or> 0xDFFF < ?r"
          proof cases
            case 1
            then show ?thesis using u1 u2 by simp
          next
            case 2
            with u1 have "uint s1 \<le> 159" by simp
            with 2 u2 show ?thesis by simp
          next
            case 3
            then show ?thesis using u1 u2 by simp
          qed
          note r = r12 r3
          have "map uint (EncodeRune ?r) = map uint [s0, s1, s2]"
            using EncodeRune_uint3 [OF r] by (simp only: d1 d2 m) simp
          then have "EncodeRune ?r = [s0, s1, s2]" by (rule map_uint_eq)
          moreover have "ValidRune ?r"
            using r by (auto simp: ValidRune_def surrogateMin_def surrogateMax_def MaxRune_def)
          ultimately show ?thesis
            unfolding c1 c2 by (intro disjI2 exI [of _ ?r] exI [of _ t']) simp
        qed
      qed
    qed
  qed
qed

lemma sound4:
  assumes "240 \<le> uint s0" "uint s0 \<le> 244"
  shows "DecodeRuneInString (s0 # t) = (RuneError, 1)
    \<or> (\<exists>c rest. ValidRune c \<and> s0 # t = EncodeRune c @ rest)"
proof -
  let ?a = "uint s0 - 240"
  have f: "utf8_first s0 = (if ?a = 0 then 0x34 else if ?a = 4 then 0x44 else 0x04)"
    using assms by (simp add: utf8_first_uint)
  then have fs: "utf8_first s0 \<in> {0x02, 0x13, 0x03, 0x23, 0x34, 0x04, 0x44}"
    and ft: "utf8_first s0 \<in> {0x13, 0x03, 0x23, 0x34, 0x04, 0x44}"
    and ff: "utf8_first s0 \<in> {0x34, 0x04, 0x44}"
    and sz: "uint (utf8_first s0 AND 7) = 4"
    by auto
  have short: ?thesis if "length t < 3"
    using decode_short [OF fs, of t] that by (simp add: sz)
  show ?thesis
  proof (cases "length t < 3")
    case True
    then show ?thesis by (rule short)
  next
    case False
    then obtain s1 s2 s3 t' where t: "t = s1 # s2 # s3 # t'"
      by (cases t; cases "tl t"; cases "tl (tl t)") auto
    let ?lo = "if ?a = 0 then (0x90 :: byte) else 0x80"
    let ?hi = "if ?a = 4 then (0x8F :: byte) else 0xBF"
    have acc: "acceptRanges (drop_bit 4 (utf8_first s0)) = (?lo, ?hi)"
      by (simp add: f acceptRanges_def)
    show ?thesis
    proof (cases "s1 < ?lo \<or> ?hi < s1")
      case True
      then show ?thesis
        using decode_second_fail [OF fs, of s1 "s2 # s3 # t'"] unfolding acc t by simp
    next
      case s1ok: False
      show ?thesis
      proof (cases "s2 < 0x80 \<or> 0xBF < s2")
        case True
        then show ?thesis using decode_third_fail [OF ft, of s2 s1 "s3 # t'"] by (simp add: t)
      next
        case s2ok: False
        show ?thesis
        proof (cases "s3 < 0x80 \<or> 0xBF < s3")
          case True
          then show ?thesis using decode_fourth_fail [OF ff, of s3 s1 s2 t'] by (simp add: t)
        next
          case False
          then have u3: "128 \<le> uint s3" "uint s3 \<le> 191" by (simp_all add: word_less_alt)
          from s2ok have u2: "128 \<le> uint s2" "uint s2 \<le> 191"
            by (simp_all add: word_less_alt)
          from s1ok have u1: "128 \<le> uint s1" "uint s1 \<le> 191"
            "?a = 0 \<longrightarrow> 144 \<le> uint s1" "?a = 4 \<longrightarrow> uint s1 \<le> 143"
            by (auto simp: word_less_alt split: if_splits)
          let ?b = "uint s1 - 128" and ?c = "uint s2 - 128" and ?d = "uint s3 - 128"
          let ?r = "?a * 262144 + (?b * 4096 + (?c * 64 + ?d))"
          have d1: "?r div 262144 = ?a" using u1 u2 u3 by (intro div_tag) simp_all
          have e2: "?r = (?a * 64 + ?b) * 4096 + (?c * 64 + ?d)" by simp
          have "?r div 4096 = ?a * 64 + ?b" unfolding e2 using u2 u3 by (intro div_tag) simp_all
          moreover have "(?a * 64 + ?b) mod 64 = ?b" using u1 by (intro mod_tag) simp_all
          ultimately have d2: "?r div 4096 mod 64 = ?b" by simp
          have e3: "?r = ((?a * 64 + ?b) * 64 + ?c) * 64 + ?d" by simp
          have "?r div 64 = (?a * 64 + ?b) * 64 + ?c" unfolding e3 using u3
            by (intro div_tag) simp_all
          moreover have "((?a * 64 + ?b) * 64 + ?c) mod 64 = ?c" using u2
            by (intro mod_tag) simp_all
          ultimately have d3: "?r div 64 mod 64 = ?c" by simp
          have m: "?r mod 64 = ?d" unfolding e3 using u3 by (intro mod_tag) simp_all
          consider "?a = 0" | "0 < ?a" "?a < 4" | "?a = 4" using assms by linarith
          then have "0x10000 \<le> ?r \<and> ?r \<le> 0x10FFFF"
          proof cases
            case 1
            with u1 have "144 \<le> uint s1" by simp
            with 1 u1 u2 u3 show ?thesis by simp
          next
            case 2
            with u1 u2 u3 show ?thesis by simp
          next
            case 3
            with u1 have "uint s1 \<le> 143" by simp
            with 3 u1 u2 u3 show ?thesis by simp
          qed
          then have r: "0x10000 \<le> ?r" "?r \<le> 0x10FFFF" by simp_all
          have "map uint (EncodeRune ?r) = map uint [s0, s1, s2, s3]"
            using EncodeRune_uint4 [OF r] by (simp only: d1 d2 d3 m) simp
          then have "EncodeRune ?r = [s0, s1, s2, s3]" by (rule map_uint_eq)
          moreover have "ValidRune ?r"
            using r by (auto simp: ValidRune_def surrogateMin_def surrogateMax_def MaxRune_def)
          ultimately show ?thesis
            unfolding t by (intro disjI2 exI [of _ ?r] exI [of _ t']) simp
        qed
      qed
    qed
  qed
qed

lemma decode_ill_formed:
  assumes "s \<noteq> []" and "\<forall>c rest. ValidRune c \<longrightarrow> s \<noteq> EncodeRune c @ rest"
  shows "DecodeRuneInString s = (RuneError, 1)"
proof -
  from assms(1) obtain s0 t where s: "s = s0 # t" by (cases s) auto
  have "utf8_first s0 = 0xF1" if "128 \<le> uint s0" "uint s0 < 194"
    using that by (simp add: utf8_first_uint)
  moreover have "utf8_first s0 = 0xF1" if "244 < uint s0"
    using that by (simp add: utf8_first_uint)
  ultimately consider "uint s0 < 128" | "utf8_first s0 = 0xF1"
    | "194 \<le> uint s0" "uint s0 < 224"
    | "224 \<le> uint s0" "uint s0 < 240" | "240 \<le> uint s0" "uint s0 \<le> 244"
    by linarith
  then have "DecodeRuneInString (s0 # t) = (RuneError, 1)
    \<or> (\<exists>c rest. ValidRune c \<and> s0 # t = EncodeRune c @ rest)"
  proof cases
    case 1
    then show ?thesis using wellformed1 by blast
  next
    case 2
    then show ?thesis by (simp add: decode_bad_lead)
  next
    case 3
    then show ?thesis by (rule sound2)
  next
    case 4
    then show ?thesis by (rule sound3)
  next
    case 5
    then show ?thesis by (rule sound4)
  qed
  with assms(2) s show ?thesis by blast
qed

lemma ill_formed_iff:
  assumes "s \<noteq> []"
  shows "DecodeRuneInString s = (RuneError, 1)
    \<longleftrightarrow> (\<forall>c rest. ValidRune c \<longrightarrow> s \<noteq> EncodeRune c @ rest)"
proof
  assume d: "DecodeRuneInString s = (RuneError, 1)"
  show "\<forall>c rest. ValidRune c \<longrightarrow> s \<noteq> EncodeRune c @ rest"
  proof (intro allI impI notI)
    fix c rest
    assume v: "ValidRune c" and e: "s = EncodeRune c @ rest"
    have "DecodeRuneInString s = (c, int (length (EncodeRune c)))"
      unfolding e using v by (rule decode_encode)
    with d have c: "RuneError = c" and l: "int (length (EncodeRune c)) = 1" by auto
    have "length (EncodeRune RuneError) = 3"
      by (simp add: RuneError_def EncodeRune_def MaxRune_def surrogateMin_def surrogateMax_def)
    with l show False unfolding c [symmetric] by simp
  qed
next
  assume "\<forall>c rest. ValidRune c \<longrightarrow> s \<noteq> EncodeRune c @ rest"
  with assms show "DecodeRuneInString s = (RuneError, 1)" by (rule decode_ill_formed)
qed

subsection \<open>Next\<close>

lemma EncodeRune_nonempty: "EncodeRune c \<noteq> []"
  by (simp add: EncodeRune_def Let_def)

text \<open>
  C1, as the code has it. At or past the end of the input \<open>Next\<close> returns \<open>EOF\<close>,
  sets the width to 0 and leaves the position alone. At a byte offset inside the input
  it returns the rune that \<open>utf8.DecodeRuneInString\<close> finds there and moves the
  position by the width the decoder reports, which is 1 to 4 and never leads past the end
  of the input. Where the bytes at the position are the encoding of a valid code point,
  the rune is that code point and the width is the length of its encoding; where they
  are ill-formed, that is where they start with the encoding of no valid code point, the
  rune is U+FFFD and the width is 1; and from a unit boundary \<open>Next\<close> leads to a unit
  boundary.
\<close>

theorem Next_spec:
  "(int (length (input s)) \<le> pos s \<longrightarrow> Next s = Inr (EOF, s\<lparr>width := 0, backups := 0\<rparr>))
   \<and> (0 \<le> pos s \<and> pos s < int (length (input s)) \<longrightarrow>
        (\<exists>r w. DecodeRuneInString (drop (nat (pos s)) (input s)) = (r, w)
           \<and> Next s = Inr (r, s\<lparr>width := w, pos := pos s + w, backups := 0\<rparr>)
           \<and> 1 \<le> w \<and> w \<le> 4 \<and> pos s + w \<le> int (length (input s))))
   \<and> (\<forall>c rest. 0 \<le> pos s \<and> ValidRune c \<and> drop (nat (pos s)) (input s) = EncodeRune c @ rest \<longrightarrow>
        Next s = Inr (c, s\<lparr>width := int (length (EncodeRune c)),
                          pos := pos s + int (length (EncodeRune c)), backups := 0\<rparr>))
   \<and> (0 \<le> pos s \<and> pos s < int (length (input s))
        \<and> (\<forall>c rest. ValidRune c \<longrightarrow> drop (nat (pos s)) (input s) \<noteq> EncodeRune c @ rest) \<longrightarrow>
        Next s = Inr (RuneError, s\<lparr>width := 1, pos := pos s + 1, backups := 0\<rparr>))
   \<and> (boundary (input s) (pos s) \<longrightarrow>
        (\<exists>r s1. Next s = Inr (r, s1) \<and> input s1 = input s \<and> boundary (input s) (pos s1)))"
proof (intro conjI impI allI)
  assume "int (length (input s)) \<le> pos s"
  then show "Next s = Inr (EOF, s\<lparr>width := 0, backups := 0\<rparr>)" by (rule Next_at_end)
next
  assume "0 \<le> pos s \<and> pos s < int (length (input s))"
  then show "\<exists>r w. DecodeRuneInString (drop (nat (pos s)) (input s)) = (r, w)
           \<and> Next s = Inr (r, s\<lparr>width := w, pos := pos s + w, backups := 0\<rparr>)
           \<and> 1 \<le> w \<and> w \<le> 4 \<and> pos s + w \<le> int (length (input s))"
    using Next_inside [of s] by blast
next
  fix c rest
  assume a: "0 \<le> pos s \<and> ValidRune c \<and> drop (nat (pos s)) (input s) = EncodeRune c @ rest"
  then have "drop (nat (pos s)) (input s) \<noteq> []" by (simp add: EncodeRune_nonempty)
  then have "nat (pos s) < length (input s)" by simp
  with a have inside: "pos s < int (length (input s))" by linarith
  from a have "DecodeRuneInString (drop (nat (pos s)) (input s)) = (c, int (length (EncodeRune c)))"
    by (simp add: decode_encode)
  with a inside show "Next s = Inr (c, s\<lparr>width := int (length (EncodeRune c)),
                          pos := pos s + int (length (EncodeRune c)), backups := 0\<rparr>)"
    by (simp add: Next_def slice_to_end)
next
  assume a: "0 \<le> pos s \<and> pos s < int (length (input s))
    \<and> (\<forall>c rest. ValidRune c \<longrightarrow> drop (nat (pos s)) (input s) \<noteq> EncodeRune c @ rest)"
  then have "nat (pos s) < length (input s)" by linarith
  then have ne: "drop (nat (pos s)) (input s) \<noteq> []" by simp
  from a have "\<forall>c rest. ValidRune c \<longrightarrow> drop (nat (pos s)) (input s) \<noteq> EncodeRune c @ rest"
    by blast
  with ne have "DecodeRuneInString (drop (nat (pos s)) (input s)) = (RuneError, 1)"
    by (rule decode_ill_formed)
  with a show "Next s = Inr (RuneError, s\<lparr>width := 1, pos := pos s + 1, backups := 0\<rparr>)"
    by (simp add: Next_def slice_to_end)
next
  assume b: "boundary (input s) (pos s)"
  then have p: "0 \<le> pos s" using boundary_range by blast
  from boundary_step [OF b] show
    "\<exists>r s1. Next s = Inr (r, s1) \<and> input s1 = input s \<and> boundary (input s) (pos s1)"
    by (simp add: Next_unit_at [OF p])
qed

theorem Next_spec_witness:
  "Next ((New [] [0xC3, 0xA9, 0x61])\<lparr>pos := 3\<rparr>) =
     Inr (EOF, (New [] [0xC3, 0xA9, 0x61])\<lparr>pos := 3, width := 0, backups := 0\<rparr>)
   \<and> Next (New [] [0xC3, 0xA9, 0x61]) =
     Inr (0xE9, (New [] [0xC3, 0xA9, 0x61])\<lparr>width := 2, pos := 2, backups := 0\<rparr>)
   \<and> EncodeRune 0xE9 = [0xC3, 0xA9]
   \<and> (\<exists>r w. DecodeRuneInString [0xC3, 0xA9, 0x61] = (r, w) \<and> 1 \<le> w \<and> w \<le> 4 \<and> w \<le> 3)
   \<and> boundary [0xC3, 0xA9, 0x61] 0 \<and> boundary [0xC3, 0xA9, 0x61] 2
   \<and> DecodeRuneInString [0xC1, 0xBF] = (0xFFFD, 1)
   \<and> Next (New [] [0xC1, 0xBF]) =
     Inr (0xFFFD, (New [] [0xC1, 0xBF])\<lparr>width := 1, pos := 1, backups := 0\<rparr>)"
proof -
  let ?s = "New [] [0xC3, 0xA9, 0x61]"
  let ?e = "?s\<lparr>pos := 3\<rparr>"
  let ?o = "New [] [0xC1, 0xBF]"
  have "int (length (input ?e)) \<le> pos ?e" by (simp add: New_def)
  with Next_spec [of ?e] have "Next ?e = Inr (EOF, ?e\<lparr>width := 0, backups := 0\<rparr>)" by blast
  then have 1: "Next ?e = Inr (EOF, ?s\<lparr>pos := 3, width := 0, backups := 0\<rparr>)" by simp
  have v: "ValidRune 0xE9"
    by (simp add: ValidRune_def surrogateMin_def)
  have enc: "EncodeRune 0xE9 = [0xC3, 0xA9]"
    by (simp add: EncodeRune_def byte_of_def drop_bit_eq_div)
  have h: "0 \<le> pos ?s \<and> ValidRune 0xE9 \<and> drop (nat (pos ?s)) (input ?s) = EncodeRune 0xE9 @ [0x61]"
    by (simp add: New_def v enc)
  from Next_spec [of ?s] h have
    "Next ?s = Inr (0xE9, ?s\<lparr>width := int (length (EncodeRune 0xE9)),
       pos := pos ?s + int (length (EncodeRune 0xE9)), backups := 0\<rparr>)"
    by blast
  then have 2: "Next ?s = Inr (0xE9, ?s\<lparr>width := 2, pos := 2, backups := 0\<rparr>)"
    by (simp add: enc New_def)
  have i: "0 \<le> pos ?s \<and> pos ?s < int (length (input ?s))" by (simp add: New_def)
  with Next_spec [of ?s] have
    "\<exists>r w. DecodeRuneInString (drop (nat (pos ?s)) (input ?s)) = (r, w)
       \<and> 1 \<le> w \<and> w \<le> 4 \<and> pos ?s + w \<le> int (length (input ?s))"
    by blast
  then have 3: "\<exists>r w. DecodeRuneInString [0xC3, 0xA9, 0x61] = (r, w) \<and> 1 \<le> w \<and> w \<le> 4 \<and> w \<le> 3"
    by (simp add: New_def)
  have b0: "boundary [0xC3, 0xA9, 0x61] 0" by (rule boundary.first)
  then have "boundary (input ?s) (pos ?s)" by (simp add: New_def)
  with Next_spec [of ?s] obtain r s1 where
    "Next ?s = Inr (r, s1)" and "boundary (input ?s) (pos s1)" by blast
  with 2 have "boundary (input ?s) 2" by auto
  then have 4: "boundary [0xC3, 0xA9, 0x61] 2" by (simp add: New_def)
  have dec: "DecodeRuneInString [0xC1, 0xBF] = (RuneError, 1)"
    by (simp add: DecodeRuneInString_def utf8_first_def Let_def)
  then have d': "DecodeRuneInString [0xC1, 0xBF] = (0xFFFD, 1)" by (simp add: RuneError_def)
  from dec have ill: "\<forall>c rest. ValidRune c \<longrightarrow> [0xC1, 0xBF] \<noteq> EncodeRune c @ rest"
    using ill_formed_iff [of "[0xC1, 0xBF]"] by simp
  then have j: "0 \<le> pos ?o \<and> pos ?o < int (length (input ?o))
    \<and> (\<forall>c rest. ValidRune c \<longrightarrow> drop (nat (pos ?o)) (input ?o) \<noteq> EncodeRune c @ rest)"
    by (simp add: New_def)
  from Next_spec [of ?o] j have
    "Next ?o = Inr (RuneError, ?o\<lparr>width := 1, pos := pos ?o + 1, backups := 0\<rparr>)"
    by blast
  then have 5: "Next ?o = Inr (0xFFFD, ?o\<lparr>width := 1, pos := 1, backups := 0\<rparr>)"
    by (simp add: New_def RuneError_def)
  from 1 2 3 4 5 b0 enc d' show ?thesis by blast
qed

text \<open>
  C1, as the claim states it, fails on an input that is not well-formed UTF-8: on the
  one-byte input \<open>0xFF\<close> \<open>Next\<close> returns the character U+FFFD, whose encoded width
  is 3 bytes, and moves the position by 1.
\<close>

theorem Next_counterexample:
  "Next (New [] [0xFF]) =
     Inr (0xFFFD, \<lparr>name = [], input = [0xFF], pos = 1, start = 0, width = 1, lastPos = 0,
                    items = [], parenDepth = 0, backups = 0, trace = []\<rparr>)
   \<and> ValidRune 0xFFFD \<and> EncodeRune 0xFFFD = [0xEF, 0xBF, 0xBD]"
  by (simp add: New_def Next_def slice_def DecodeRuneInString_def utf8_first_def Let_def
      RuneError_def ValidRune_def surrogateMin_def surrogateMax_def MaxRune_def
      EncodeRune_def byte_of_def drop_bit_eq_div)

subsection \<open>The spans of a run\<close>

lemma chained_append:
  "chained a (sp @ sq) b = (\<exists>m. chained a sp m \<and> chained m sq b)"
  by (induction sp arbitrary: a) auto

lemma chained_snoc: "chained a sp lo \<Longrightarrow> lo \<le> hi \<Longrightarrow> chained a (sp @ [(lo, hi)]) hi"
  by (auto simp: chained_append)

lemma take_then_more:
  "0 \<le> a \<Longrightarrow> a \<le> b \<Longrightarrow> take (nat a) xs @ take (nat (b - a)) (drop (nat a) xs) = take (nat b) xs"
proof -
  assume "0 \<le> a" and "a \<le> b"
  then have "nat b = nat a + nat (b - a)" by simp
  then show ?thesis by (simp add: take_add)
qed

lemma Next_Inr:
  assumes "Next s = Inr (r, s1)"
  shows "0 \<le> pos s \<and> r = fst (unit_at (input s) (pos s))
    \<and> s1 = s\<lparr>width := snd (unit_at (input s) (pos s)),
             pos := pos s + snd (unit_at (input s) (pos s)), backups := 0\<rparr>"
proof (cases "pos s < 0")
  case True
  with assms show ?thesis by (simp add: Next_negative)
next
  case False
  then have p: "0 \<le> pos s" by simp
  from Next_unit_at [OF p] assms p show ?thesis by simp
qed

lemma Next_span:
  assumes "span_inv s" and "Next s = Inr (r, s1)"
  shows "span_inv s1 \<and> input s1 = input s"
proof -
  from Next_Inr [OF assms(2)] have p: "0 \<le> pos s"
    and s1: "s1 = s\<lparr>width := snd (unit_at (input s) (pos s)),
             pos := pos s + snd (unit_at (input s) (pos s)), backups := 0\<rparr>"
    by simp_all
  from unit_at_width [OF p, of "input s"] assms(1) show ?thesis
    by (cases "0 < snd (unit_at (input s) (pos s))") (auto simp: s1 span_inv_def)
qed

lemma Backup_span: "span_inv s \<Longrightarrow> span_inv (Backup s) \<and> input (Backup s) = input s"
  by (simp add: span_inv_def Backup_def)

lemma Peek_span:
  assumes "span_inv s" and "Peek s = Inr (r, s1)"
  shows "span_inv s1 \<and> input s1 = input s"
proof -
  from assms(2) obtain s2 where n: "Next s = Inr (r, s2)" and e: "s1 = Backup s2"
    by (auto simp: Peek_def split: sum.splits)
  from Next_span [OF assms(1) n] Backup_span [of s2] e show ?thesis by simp
qed

lemma Accept_span:
  assumes "span_inv s" and "Accept valid s = Inr (b, s1)"
  shows "span_inv s1 \<and> input s1 = input s"
proof -
  from assms(2) obtain r s2 where n: "Next s = Inr (r, s2)" and e: "s1 = s2 \<or> s1 = Backup s2"
    by (auto simp: Accept_def split: sum.splits if_splits)
  from Next_span [OF assms(1) n] Backup_span [of s2] e show ?thesis by auto
qed

lemma AcceptRun_loop_span:
  "span_inv s \<Longrightarrow> AcceptRun_loop valid s = Inr s1 \<Longrightarrow> span_inv s1 \<and> input s1 = input s"
proof (induction valid s rule: AcceptRun_loop.induct)
  case (1 valid s)
  from "1.prems"(2) obtain r s2 where n: "Next s = Inr (r, s2)"
    by (auto simp: AcceptRun_loop.simps [of valid s] split: sum.splits)
  note i = Next_span [OF "1.prems"(1) n]
  show ?case
  proof (cases "0 \<le> IndexRune valid r")
    case True
    with n "1.prems"(2) have "AcceptRun_loop valid s2 = Inr s1"
      by (simp add: AcceptRun_loop.simps [of valid s])
    with "1.IH" [OF n refl True] i show ?thesis by simp
  next
    case False
    with n "1.prems"(2) have "s1 = s2" by (simp add: AcceptRun_loop.simps [of valid s])
    with i show ?thesis by simp
  qed
qed

lemma AcceptRun_span:
  assumes "span_inv s" and "AcceptRun valid s = Inr s1"
  shows "span_inv s1 \<and> input s1 = input s"
proof -
  from assms(2) obtain s2 where l: "AcceptRun_loop valid s = Inr s2" and e: "s1 = Backup s2"
    by (auto simp: AcceptRun_def split: sum.splits)
  from AcceptRun_loop_span [OF assms(1) l] Backup_span [of s2] e show ?thesis by simp
qed

lemma Emit_span:
  assumes "span_inv s" and "Emit t s = Inr s1"
  shows "span_inv s1 \<and> input s1 = input s"
proof -
  let ?v = "take (nat (pos s - start s)) (drop (nat (start s)) (input s))"
  let ?it = "\<lparr>Typ = t, Pos = start s, Val = ?v\<rparr>"
  from assms(2) have r: "0 \<le> start s" "start s \<le> pos s" "pos s \<le> int (length (input s))"
    and s1: "s1 = s\<lparr>items := items s @ [?it], start := pos s, trace := trace s @ [Emitted ?it]\<rparr>"
    by (auto simp: Emit_def slice_def Let_def split: if_splits)
  from r have len: "int (length ?v) = pos s - start s" by simp
  from assms(1) have c: "chained 0 (spans (trace s)) (start s)"
    and t: "concat (map (handed (input s)) (trace s)) = take (nat (start s)) (input s)"
    and i: "concat (map sent (trace s)) = items s" and w: "0 \<le> width s"
    by (simp_all add: span_inv_def)
  have c1: "chained 0 (spans (trace s) @ [(start s, pos s)]) (pos s)"
    using c r(2) by (rule chained_snoc)
  have t1: "take (nat (start s)) (input s) @ ?v = take (nat (pos s)) (input s)"
    using r(1,2) by (rule take_then_more)
  have p: "0 \<le> pos s" using r(1,2) by simp
  have sp: "Pos ?it + int (length (Val ?it)) = pos s" using len by simp
  show ?thesis
    unfolding s1 span_inv_def spans_def
    using r(3) p c1 [unfolded spans_def] t1 t i w sp by simp
qed

lemma Ignore_span:
  assumes "span_inv s" and "start s \<le> pos s"
  shows "span_inv (Ignore s) \<and> input (Ignore s) = input s"
proof -
  from assms(1) have c: "chained 0 (spans (trace s)) (start s)"
    and t: "concat (map (handed (input s)) (trace s)) = take (nat (start s)) (input s)"
    and r: "0 \<le> start s" "pos s \<le> int (length (input s))"
    and i: "concat (map sent (trace s)) = items s" and w: "0 \<le> width s"
    by (simp_all add: span_inv_def)
  have c1: "chained 0 (spans (trace s) @ [(start s, pos s)]) (pos s)"
    using c assms(2) by (rule chained_snoc)
  have t1: "take (nat (start s)) (input s)
      @ take (nat (pos s - start s)) (drop (nat (start s)) (input s)) = take (nat (pos s)) (input s)"
    using r(1) assms(2) by (rule take_then_more)
  have p: "0 \<le> pos s" using r(1) assms(2) by simp
  from r p c1 [unfolded spans_def] t1 t i w show ?thesis
    by (simp add: Ignore_def span_inv_def spans_def)
qed

lemma Errorf_span:
  "span_inv s \<Longrightarrow>
   span_inv (snd (Errorf F format args s)) \<and> input (snd (Errorf F format args s)) = input s"
  by (simp add: span_inv_def Errorf_def Let_def spans_def)

lemma step_span:
  assumes "span_inv s" and "step F x s = Inr s1" and "x = OIgnore \<longrightarrow> start s \<le> pos s"
  shows "span_inv s1 \<and> input s1 = input s"
proof (cases x)
  case ONext
  with assms(2) obtain r where "Next s = Inr (r, s1)" by (auto split: sum.splits)
  with assms(1) show ?thesis using Next_span by blast
next
  case OPeek
  with assms(2) obtain r where "Peek s = Inr (r, s1)" by (auto split: sum.splits)
  with assms(1) show ?thesis using Peek_span by blast
next
  case OBackup
  with assms(2) have "s1 = Backup s" by simp
  with assms(1) show ?thesis using Backup_span [of s] by simp
next
  case (OAccept valid)
  with assms(2) obtain b where "Accept valid s = Inr (b, s1)" by (auto split: sum.splits)
  with assms(1) show ?thesis using Accept_span by blast
next
  case (OAcceptRun valid)
  with assms(2) have "AcceptRun valid s = Inr s1" by simp
  with assms(1) show ?thesis using AcceptRun_span by blast
next
  case (OEmit t)
  with assms(2) have "Emit t s = Inr s1" by simp
  with assms(1) show ?thesis using Emit_span by blast
next
  case OIgnore
  with assms(2,3) have "s1 = Ignore s" and "start s \<le> pos s" by simp_all
  with assms(1) show ?thesis using Ignore_span [of s] by simp
next
  case (OErrorf format args)
  with assms(2) have "s1 = snd (Errorf F format args s)" by simp
  with assms(1) show ?thesis using Errorf_span [of s F format args] by simp
qed

lemma exec_span:
  "span_inv s \<Longrightarrow> orderly F xs s \<Longrightarrow> exec F xs s = Inr s1 \<Longrightarrow>
   span_inv s1 \<and> input s1 = input s"
proof (induction xs arbitrary: s)
  case Nil
  then show ?case by simp
next
  case (Cons x xs)
  from Cons.prems(3) obtain s2 where st: "step F x s = Inr s2" and ex: "exec F xs s2 = Inr s1"
    by (auto split: sum.splits)
  from Cons.prems(2) st have c: "x = OIgnore \<longrightarrow> start s \<le> pos s" and k: "orderly F xs s2"
    by simp_all
  from step_span [OF Cons.prems(1) st c] Cons.IH [OF _ k ex] show ?case by simp
qed

lemma New_span: "span_inv (New nm inp)"
  by (simp add: span_inv_def New_def spans_def)

lemma handed_nonsentinel:
  "\<forall>it. Emitted it \<in> set tr \<and> (Typ it = EOF \<or> Typ it = ERROR) \<longrightarrow> Val it = [] \<Longrightarrow>
   concat (map (handed inp) (filter nonsentinel tr)) = concat (map (handed inp) tr)"
proof (induction tr)
  case Nil
  show ?case by simp
next
  case (Cons e tr)
  then have "concat (map (handed inp) (filter nonsentinel tr)) = concat (map (handed inp) tr)"
    by simp
  moreover have "\<not> nonsentinel e \<Longrightarrow> handed inp e = []"
    using Cons.prems by (cases e) auto
  ultimately show ?case by simp
qed

text \<open>
  C2, as the code has it. Take a run from a new scanner that returns and in which
  \<open>Ignore\<close> is never called while the position is behind the emission boundary. The
  spans of the items sent by \<open>Emit\<close> and the spans dropped by \<open>Ignore\<close> then lead
  from offset 0 to the emission boundary, each starting where the one before ends, and
  the concatenation of their texts is the input up to the emission boundary: the whole
  input when the boundary has reached its end. The items on the channel are the items of
  these events. Leaving out the items of type \<open>EOF\<close> and \<open>ERROR\<close> gives the same
  text when those that \<open>Emit\<close> sent have an empty value.
\<close>

theorem spans_reconstruct:
  assumes "orderly F xs (New nm inp)" and "exec F xs (New nm inp) = Inr s"
  shows "chained 0 (spans (trace s)) (start s)
    \<and> 0 \<le> start s \<and> start s \<le> int (length inp)
    \<and> concat (map sent (trace s)) = items s
    \<and> concat (map (handed inp) (trace s)) = take (nat (start s)) inp
    \<and> ((\<forall>it. Emitted it \<in> set (trace s) \<and> (Typ it = EOF \<or> Typ it = ERROR) \<longrightarrow> Val it = []) \<longrightarrow>
         concat (map (handed inp) (filter nonsentinel (trace s))) = take (nat (start s)) inp)
    \<and> (start s = int (length inp) \<longrightarrow> concat (map (handed inp) (trace s)) = inp)"
proof -
  have i: "input (New nm inp) = inp" by (simp add: New_def)
  from exec_span [OF New_span assms] i have v: "span_inv s" and j: "input s = inp" by simp_all
  from v j have a: "chained 0 (spans (trace s)) (start s)" "0 \<le> start s"
    "start s \<le> int (length inp)" "concat (map sent (trace s)) = items s"
    "concat (map (handed inp) (trace s)) = take (nat (start s)) inp"
    by (auto simp: span_inv_def)
  have b: "concat (map (handed inp) (filter nonsentinel (trace s))) = take (nat (start s)) inp"
    if "\<forall>it. Emitted it \<in> set (trace s) \<and> (Typ it = EOF \<or> Typ it = ERROR) \<longrightarrow> Val it = []"
    using handed_nonsentinel [OF that, of inp] a(5) by simp
  have c: "concat (map (handed inp) (trace s)) = inp" if "start s = int (length inp)"
    using a(5) that by simp
  from a b c show ?thesis by blast
qed

theorem spans_reconstruct_witness:
  "orderly (\<lambda>f (a :: unit list). f)
     [OAcceptRun [0x31], OEmit 0, ONext, OIgnore, ONext, OEmit 1, OEmit EOF]
     (New [] [0x31, 0x20, 0x61])
   \<and> exec (\<lambda>f (a :: unit list). f)
     [OAcceptRun [0x31], OEmit 0, ONext, OIgnore, ONext, OEmit 1, OEmit EOF]
     (New [] [0x31, 0x20, 0x61]) =
     Inr \<lparr>name = [], input = [0x31, 0x20, 0x61], pos = 3, start = 3, width = 1, lastPos = 0,
          items = [\<lparr>Typ = 0, Pos = 0, Val = [0x31]\<rparr>, \<lparr>Typ = 1, Pos = 2, Val = [0x61]\<rparr>,
                   \<lparr>Typ = EOF, Pos = 3, Val = []\<rparr>],
          parenDepth = 0, backups = 0,
          trace = [Emitted \<lparr>Typ = 0, Pos = 0, Val = [0x31]\<rparr>, Ignored 1 2,
                   Emitted \<lparr>Typ = 1, Pos = 2, Val = [0x61]\<rparr>,
                   Emitted \<lparr>Typ = EOF, Pos = 3, Val = []\<rparr>]\<rparr>
   \<and> concat (map (handed [0x31, 0x20, 0x61]) (filter nonsentinel
         [Emitted \<lparr>Typ = 0, Pos = 0, Val = [0x31]\<rparr>, Ignored 1 2,
          Emitted \<lparr>Typ = 1, Pos = 2, Val = [0x61]\<rparr>,
          Emitted \<lparr>Typ = EOF, Pos = 3, Val = []\<rparr>])) = [0x31, 0x20, 0x61]
   \<and> concat (map (handed [0x31, 0x20, 0x61])
         [Emitted \<lparr>Typ = 0, Pos = 0, Val = [0x31]\<rparr>, Ignored 1 2,
          Emitted \<lparr>Typ = 1, Pos = 2, Val = [0x61]\<rparr>,
          Emitted \<lparr>Typ = EOF, Pos = 3, Val = []\<rparr>]) = [0x31, 0x20, 0x61]"
proof -
  let ?F = "\<lambda>f (a :: unit list). f :: gostring"
  let ?xs = "[OAcceptRun [0x31], OEmit 0, ONext, OIgnore, ONext, OEmit 1, OEmit EOF] :: unit op list"
  let ?tr = "[Emitted \<lparr>Typ = 0, Pos = 0, Val = [0x31]\<rparr>, Ignored 1 2,
          Emitted \<lparr>Typ = 1, Pos = 2, Val = [0x61]\<rparr>,
          Emitted \<lparr>Typ = EOF, Pos = 3, Val = []\<rparr>]"
  let ?s = "\<lparr>name = [], input = [0x31, 0x20, 0x61], pos = 3, start = 3, width = 1, lastPos = 0,
          items = [\<lparr>Typ = 0, Pos = 0, Val = [0x31]\<rparr>, \<lparr>Typ = 1, Pos = 2, Val = [0x61]\<rparr>,
                   \<lparr>Typ = EOF, Pos = 3, Val = []\<rparr>],
          parenDepth = 0, backups = 0, trace = ?tr\<rparr>"
  have d: "DecodeRuneInString [0x31, 0x20, 0x61] = (0x31, 1)"
    "DecodeRuneInString [0x20, 0x61] = (0x20, 1)" "DecodeRuneInString [0x61] = (0x61, 1)"
    by (simp_all add: DecodeRuneInString_def utf8_first_def Let_def)
  have m: "IndexRune [0x31] 0x31 = 0" "IndexRune [0x31] 0x20 = -1"
    by (simp_all add: IndexRune_def RuneSelf_def byte_of_def)
  have o: "orderly ?F ?xs (New [] [0x31, 0x20, 0x61])"
    by (simp add: New_def Next_def Backup_def Emit_def Ignore_def
        AcceptRun_def AcceptRun_loop.simps slice_def d m Let_def)
  have e: "exec ?F ?xs (New [] [0x31, 0x20, 0x61]) = Inr ?s"
    by (simp add: New_def Next_def Backup_def Emit_def Ignore_def
        AcceptRun_def AcceptRun_loop.simps slice_def d m Let_def)
  have h: "\<forall>it. Emitted it \<in> set (trace ?s) \<and> (Typ it = EOF \<or> Typ it = ERROR) \<longrightarrow> Val it = []"
    by (auto simp: EOF_def ERROR_def)
  have l: "start ?s = int (length [0x31, 0x20, 0x61 :: byte])" by simp
  note t = spans_reconstruct [OF o e]
  from t h have
    "concat (map (handed [0x31, 0x20, 0x61]) (filter nonsentinel (trace ?s)))
       = take (nat (start ?s)) [0x31, 0x20, 0x61]"
    by blast
  then have 1: "concat (map (handed [0x31, 0x20, 0x61]) (filter nonsentinel ?tr))
       = [0x31, 0x20, 0x61]"
    by (simp add: numeral_3_eq_3)
  from t l have "concat (map (handed [0x31, 0x20, 0x61]) (trace ?s)) = [0x31, 0x20, 0x61]"
    by blast
  then have 2: "concat (map (handed [0x31, 0x20, 0x61]) ?tr) = [0x31, 0x20, 0x61]"
    by simp
  from o e 1 2 show ?thesis by blast
qed

text \<open>
  C2, as the claim states it, fails in two ways on the input \<open>"a"\<close>. After \<open>Next\<close>,
  \<open>Emit\<close>, a \<open>Backup\<close> puts the position behind the emission boundary; \<open>Ignore\<close>
  then moves the boundary back, and the byte is emitted a second time. And the pending
  byte emitted in an item of type \<open>EOF\<close> is in no item that is not a sentinel.
\<close>

theorem spans_counterexample:
  "exec (\<lambda>f (a :: unit list). f) [ONext, OEmit 0, OBackup, OIgnore, ONext, OEmit 0]
     (New [] [0x61]) =
     Inr \<lparr>name = [], input = [0x61], pos = 1, start = 1, width = 1, lastPos = 0,
          items = [\<lparr>Typ = 0, Pos = 0, Val = [0x61]\<rparr>, \<lparr>Typ = 0, Pos = 0, Val = [0x61]\<rparr>],
          parenDepth = 0, backups = 0,
          trace = [Emitted \<lparr>Typ = 0, Pos = 0, Val = [0x61]\<rparr>, Ignored 1 0,
                   Emitted \<lparr>Typ = 0, Pos = 0, Val = [0x61]\<rparr>]\<rparr>
   \<and> contract (\<lambda>f (a :: unit list). f) [ONext, OEmit 0, OBackup, OIgnore, ONext, OEmit 0]
       (New [] [0x61])
   \<and> concat (map (handed [0x61]) (filter nonsentinel
         [Emitted \<lparr>Typ = 0, Pos = 0, Val = [0x61]\<rparr>, Ignored 1 0,
          Emitted \<lparr>Typ = 0, Pos = 0, Val = [0x61]\<rparr>])) = [0x61, 0x61]
   \<and> \<not> chained 0 (spans [Emitted \<lparr>Typ = 0, Pos = 0, Val = [0x61]\<rparr>, Ignored 1 0,
          Emitted \<lparr>Typ = 0, Pos = 0, Val = [0x61]\<rparr>]) 1
   \<and> exec (\<lambda>f (a :: unit list). f) [ONext, OEmit EOF] (New [] [0x61]) =
     Inr \<lparr>name = [], input = [0x61], pos = 1, start = 1, width = 1, lastPos = 0,
          items = [\<lparr>Typ = EOF, Pos = 0, Val = [0x61]\<rparr>], parenDepth = 0, backups = 0,
          trace = [Emitted \<lparr>Typ = EOF, Pos = 0, Val = [0x61]\<rparr>]\<rparr>
   \<and> concat (map (handed [0x61]) (filter nonsentinel
         [Emitted \<lparr>Typ = EOF, Pos = 0, Val = [0x61]\<rparr>])) = []"
  by (simp add: New_def Next_def Backup_def Emit_def Ignore_def slice_def Let_def
      DecodeRuneInString_def utf8_first_def spans_def EOF_def ERROR_def)

end
